theory Spec2Isabelle
  imports Main
begin

section \<open>Tokens and the scanner (scanner.py)\<close>

text \<open>
  A token is the Python pair \<open>(token_value, token_type)\<close> of two strings. A source text is a
  list of characters, one \<open>char\<close> per code point; the character classes below are those of
  Python on the code points 0 to 255: \<open>str.isspace\<close>, the regular expression classes
  \<open>[a-zA-Z]\<close>, \<open>[a-zA-Z0-9]\<close> and \<open>\d\<close>, and \<open>str.lower\<close>.
\<close>

type_synonym token = "string \<times> string"

definition TOKEN_TYPES :: "(string \<times> string) list" where
  "TOKEN_TYPES =
    [(''if'', ''IF''), (''then'', ''THEN''), (''end'', ''END''), (''repeat'', ''REPEAT''),
     (''until'', ''UNTIL''), (''read'', ''READ''), (''write'', ''WRITE''),
     ('';'', ''SEMICOLON''), ('':='', ''ASSIGN''), (''<'', ''LESSTHAN''), (''='', ''EQUAL''),
     (''+'', ''PLUS''), (''-'', ''MINUS''), (''*'', ''MULT''), (''/'', ''DIV''),
     (''('', ''OPENBRACKET''), ('')'', ''CLOSEDBRACKET'')]"

definition isspace :: "char \<Rightarrow> bool" where
  "isspace c = (of_char c \<in> set [9, 10, 11, 12, 13, 28, 29, 30, 31, 32, 133, 160 :: nat])"

definition is_letter :: "char \<Rightarrow> bool" where
  "is_letter c = (let n = (of_char c :: nat) in (97 \<le> n \<and> n \<le> 122) \<or> (65 \<le> n \<and> n \<le> 90))"

definition is_digit :: "char \<Rightarrow> bool" where
  "is_digit c = (let n = (of_char c :: nat) in 48 \<le> n \<and> n \<le> 57)"

definition is_alnum :: "char \<Rightarrow> bool" where
  "is_alnum c = (is_letter c \<or> is_digit c)"

definition lower_char :: "char \<Rightarrow> char" where
  "lower_char c = (let n = (of_char c :: nat) in
     if (65 \<le> n \<and> n \<le> 90) \<or> (192 \<le> n \<and> n \<le> 222 \<and> n \<noteq> 215) then char_of (n + 32) else c)"

definition lower :: "string \<Rightarrow> string" where
  "lower s = map lower_char s"

definition identifier_match :: "string \<Rightarrow> string option" where
  "identifier_match s =
     (case s of [] \<Rightarrow> None
      | c # cs \<Rightarrow> if is_letter c then Some (c # takeWhile is_alnum cs) else None)"

definition number_match :: "string \<Rightarrow> string option" where
  "number_match s = (case takeWhile is_digit s of [] \<Rightarrow> None | d # ds \<Rightarrow> Some (d # ds))"

text \<open>
  \<open>identifier_match\<close> and \<open>number_match\<close> are \<open>re.match\<close> with the patterns
  \<open>[a-zA-Z][a-zA-Z0-9]*\<close> and \<open>\d+\<close> on the rest of the text: the longest match at its
  start, or \<open>None\<close>. \<open>Unrecognized position c\<close> is the exception
  "Unrecognized token at position ...". \<open>scan_step\<close> is the body of the \<open>while\<close> loop of
  \<open>scan\<close>, one iteration at a position inside the text; it returns the new position and
  token list, and \<open>scan_loop\<close> is the loop.
\<close>

datatype scan_error = Unrecognized nat char

definition scan_step :: "string \<Rightarrow> nat \<Rightarrow> token list \<Rightarrow> scan_error + (nat \<times> token list)" where
  "scan_step code position tokens =
    (if isspace (code ! position) then Inr (position + 1, tokens)
     else case identifier_match (drop position code) of
       Some val \<Rightarrow>
         (let token_type = (case map_of TOKEN_TYPES (lower val) of
                              Some t \<Rightarrow> t | None \<Rightarrow> ''IDENTIFIER'')
          in Inr (position + length val, tokens @ [(val, token_type)]))
     | None \<Rightarrow>
        (case number_match (drop position code) of
           Some val \<Rightarrow> Inr (position + length val, tokens @ [(val, ''NUMBER'')])
         | None \<Rightarrow>
            if position + 1 < length code \<and> take 2 (drop position code) = '':=''
            then Inr (position + 2, tokens @ [('':='', ''ASSIGN'')])
            else (case map_of TOKEN_TYPES [code ! position] of
                    Some t \<Rightarrow> Inr (position + 1, tokens @ [([code ! position], t)])
                  | None \<Rightarrow> Inl (Unrecognized position (code ! position)))))"

lemma identifier_match_length:
  "identifier_match s = Some v \<Longrightarrow> 0 < length v \<and> length v \<le> length s"
  by (auto simp: identifier_match_def split: list.splits if_splits
      intro: le_trans [OF length_takeWhile_le])

lemma number_match_length:
  "number_match s = Some v \<Longrightarrow> 0 < length v \<and> length v \<le> length s"
proof -
  assume a: "number_match s = Some v"
  then have "v = takeWhile is_digit s" "v \<noteq> []"
    by (auto simp: number_match_def split: list.splits)
  then show ?thesis by (simp add: length_takeWhile_le)
qed

lemma scan_step_advances:
  assumes "position < length code" and "scan_step code position toks = Inr (p', t')"
  shows "position < p' \<and> p' \<le> length code"
  using assms
  apply (auto simp: scan_step_def Let_def split: if_splits option.splits
      dest!: identifier_match_length number_match_length)
  done

function scan_loop :: "string \<Rightarrow> nat \<Rightarrow> token list \<Rightarrow> scan_error + token list" where
  "scan_loop code position tokens =
     (if position < length code then
        (case scan_step code position tokens of
           Inl e \<Rightarrow> Inl e
         | Inr (position', tokens') \<Rightarrow> scan_loop code position' tokens')
      else Inr tokens)"
  by pat_completeness auto

termination
  by (relation "measure (\<lambda>(code, position, tokens). length code - position)")
     (auto dest: scan_step_advances)

declare scan_loop.simps [simp del]

definition scan :: "string \<Rightarrow> scan_error + token list" where
  "scan code = scan_loop code 0 []"

text \<open>
  The main loop of \<open>scan\<close> run for at most \<open>n\<close> iterations: \<open>None\<close> when the loop
  has not left after \<open>n\<close> executions of its body.
\<close>

fun scan_iter :: "nat \<Rightarrow> string \<Rightarrow> nat \<Rightarrow> token list \<Rightarrow> (scan_error + token list) option" where
  "scan_iter 0 code position tokens =
     (if position < length code then None else Some (Inr tokens))"
| "scan_iter (Suc n) code position tokens =
     (if position < length code then
        (case scan_step code position tokens of
           Inl e \<Rightarrow> Some (Inl e)
         | Inr (position', tokens') \<Rightarrow> scan_iter n code position' tokens')
      else Some (Inr tokens))"

section \<open>The token file (save_tokens_to_file in scanner.py, the loader of parse_file in parser.py)\<close>

text \<open>
  A file is its content, a string. \<open>save_tokens_to_file\<close> writes one line
  \<open>token_value,token_type\<close> per token. The loader iterates over the lines of a file opened in
  text mode (universal newlines: a carriage return, alone or before a line feed, reads as a
  line feed), strips each line, skips empty lines, splits the line on every comma and
  unpacks the parts into exactly two names, which raises \<open>ValueError\<close> otherwise.
\<close>

definition save_tokens_to_file :: "token list \<Rightarrow> string" where
  "save_tokens_to_file tokens =
     concat (map (\<lambda>(token_value, token_type). token_value @ '','' @ token_type @ [CHR 0x0A]) tokens)"

fun universal_newlines :: "string \<Rightarrow> string" where
  "universal_newlines [] = []"
| "universal_newlines [c] = (if c = CHR 0x0D then [CHR 0x0A] else [c])"
| "universal_newlines (c # d # cs) =
     (if c = CHR 0x0D then
        (if d = CHR 0x0A then CHR 0x0A # universal_newlines cs
         else CHR 0x0A # universal_newlines (d # cs))
      else c # universal_newlines (d # cs))"

fun file_lines :: "string \<Rightarrow> string \<Rightarrow> string list" where
  "file_lines line [] = (if line = [] then [] else [line])"
| "file_lines line (c # cs) =
     (if c = CHR 0x0A then (line @ [c]) # file_lines [] cs else file_lines (line @ [c]) cs)"

definition strip :: "string \<Rightarrow> string" where
  "strip s = rev (dropWhile isspace (rev (dropWhile isspace s)))"

fun split_comma :: "string \<Rightarrow> string \<Rightarrow> string list" where
  "split_comma part [] = [part]"
| "split_comma part (c # cs) =
     (if c = CHR '','' then part # split_comma [] cs else split_comma (part @ [c]) cs)"

datatype load_error = ValueError

fun load_lines :: "string list \<Rightarrow> token list \<Rightarrow> load_error + token list" where
  "load_lines [] tokens = Inr tokens"
| "load_lines (line # rest) tokens =
     (let line = strip line in
      if line \<noteq> [] then
        (case split_comma [] line of
           [token_value, token_type] \<Rightarrow> load_lines rest (tokens @ [(token_value, token_type)])
         | _ \<Rightarrow> Inl ValueError)
      else load_lines rest tokens)"

definition load_tokens :: "string \<Rightarrow> load_error + token list" where
  "load_tokens content = load_lines (file_lines [] (universal_newlines content)) []"

section \<open>The parser (parser.py)\<close>

text \<open>
  An AST node is a Python dictionary with a \<open>type\<close> entry; there is one constructor per
  value of \<open>type\<close>, and two for \<open>factor\<close>, whose \<open>value\<close> is a token or the node of
  a bracketed expression. An exception is a value of \<open>parse_error\<close>:
  \<open>UnexpectedEndOfInput\<close> is "Unexpected end of input", \<open>Expected e f\<close> is
  "Expected e, but found f", \<open>UnexpectedToken v t\<close> is "Unexpected token: v, t" of
  \<open>statement\<close> and \<open>factor\<close>, \<open>UnexpectedTrailing tok\<close> is "Unexpected token: tok" of
  \<open>parse\<close>, and \<open>UnpackNone\<close> is the \<open>TypeError\<close> of unpacking \<open>None\<close> in \<open>match\<close>.
  The parser object is a record of its three fields, passed through every rule;
  \<open>bind_result\<close> runs a rule and hands its value and the new parser on, or propagates the
  exception.
\<close>

datatype ast =
    Program ast
  | StmtSequence "ast list"
  | IfStmt ast ast
  | RepeatStmt ast ast
  | AssignStmt token ast
  | ReadStmt token
  | WriteStmt ast
  | Exp ast token ast
  | SimpleExp ast token ast
  | Term ast token ast
  | FactorToken token
  | FactorExp ast

datatype parse_error =
    UnexpectedEndOfInput
  | Expected string string
  | UnexpectedToken string string
  | UnexpectedTrailing "token option"
  | UnpackNone

record parser =
  tokens :: "token list"
  current_token_index :: nat
  current_token :: "token option"

definition match :: "string \<Rightarrow> parser \<Rightarrow> parse_error + (token \<times> parser)" where
  "match expected_type self =
     (if current_token_index self \<ge> length (tokens self) then Inl UnexpectedEndOfInput
      else case current_token self of
        None \<Rightarrow> Inl UnpackNone
      | Some (token_value, token_type) \<Rightarrow>
          if token_type \<noteq> expected_type then Inl (Expected expected_type token_type)
          else (let i = current_token_index self + 1 in
                Inr ((token_value, token_type),
                     self\<lparr>current_token_index := i,
                          current_token := (if i < length (tokens self)
                                            then Some (tokens self ! i) else None)\<rparr>)))"

text \<open>
  \<open>advance\<close> is the last step of \<open>match\<close>, which consumes the current token;
  \<open>match\<close> succeeds exactly when the cursor is inside the token list and the current token
  has the expected kind, and then returns that token and the advanced parser.
\<close>

definition advance :: "parser \<Rightarrow> parser" where
  "advance self =
     self\<lparr>current_token_index := current_token_index self + 1,
          current_token := (if current_token_index self + 1 < length (tokens self)
                            then Some (tokens self ! (current_token_index self + 1)) else None)\<rparr>"

lemma advance_simps [simp]:
  "tokens (advance self) = tokens self"
  "current_token_index (advance self) = Suc (current_token_index self)"
  by (simp_all add: advance_def)

lemma match_Inr_iff:
  "match k self = Inr (t, self') \<longleftrightarrow>
     current_token_index self < length (tokens self) \<and> current_token self = Some t \<and> snd t = k \<and>
     self' = advance self"
  by (cases t) (auto simp: match_def advance_def Let_def split: option.splits)

definition bind_result ::
  "'e + ('a \<times> 's) \<Rightarrow> ('a \<Rightarrow> 's \<Rightarrow> 'e + 'b) \<Rightarrow> 'e + 'b" where
  "bind_result m f = (case m of Inl e \<Rightarrow> Inl e | Inr (a, s) \<Rightarrow> f a s)"

lemma bind_result_cong [fundef_cong]:
  "m = m' \<Longrightarrow> (\<And>a s. m' = Inr (a, s) \<Longrightarrow> f a s = f' a s) \<Longrightarrow>
     bind_result m f = bind_result m' f'"
  by (auto simp: bind_result_def split: sum.splits)

lemma bind_result_Inr_iff:
  "bind_result m f = Inr r \<longleftrightarrow> (\<exists>a s. m = Inr (a, s) \<and> f a s = Inr r)"
  by (auto simp: bind_result_def split: sum.splits)

lemma bind_result_simps [simp]:
  "bind_result (Inl e) f = Inl e"
  "bind_result (Inr (a, s)) f = f a s"
  by (simp_all add: bind_result_def)

text \<open>
  The parser whose cursor is at index \<open>i\<close> of \<open>toks\<close>, with the current token the code keeps
  beside the index; \<open>parse\<close> starts at \<open>parser_at toks 0\<close>. A parser is consistent when
  its current token is the one at its index.
\<close>

definition parser_at :: "token list \<Rightarrow> nat \<Rightarrow> parser" where
  "parser_at toks i =
     \<lparr>tokens = toks, current_token_index = i,
      current_token = (if i < length toks then Some (toks ! i) else None)\<rparr>"

definition consistent :: "parser \<Rightarrow> bool" where
  "consistent self = (self = parser_at (tokens self) (current_token_index self))"

definition advanced :: "parser \<Rightarrow> parser \<Rightarrow> bool" where
  "advanced self self' =
     (tokens self' = tokens self \<and> current_token_index self \<le> current_token_index self' \<and>
      (current_token_index self \<le> length (tokens self) \<longrightarrow>
         current_token_index self' \<le> length (tokens self)) \<and>
      (consistent self \<longrightarrow> consistent self'))"

text \<open>
  The rules for expressions. The rule \<open>term\<close> of the source is \<open>term_rule\<close> here;
  \<open>simple_exp_loop\<close> and \<open>term_loop\<close> are the \<open>while\<close> loops of \<open>simple_exp\<close> and \<open>term\<close>,
  functions of the node \<open>left\<close> built so far. A test \<open>self.current_token and ...\<close> of the
  source is a case distinction on the current token. Python's recursion limit is not part
  of the model.
\<close>

function exp :: "parser \<Rightarrow> parse_error + (ast \<times> parser)"
  and simple_exp :: "parser \<Rightarrow> parse_error + (ast \<times> parser)"
  and simple_exp_loop :: "ast \<Rightarrow> parser \<Rightarrow> parse_error + (ast \<times> parser)"
  and term_rule :: "parser \<Rightarrow> parse_error + (ast \<times> parser)"
  and term_loop :: "ast \<Rightarrow> parser \<Rightarrow> parse_error + (ast \<times> parser)"
  and factor :: "parser \<Rightarrow> parse_error + (ast \<times> parser)"
where
  "exp self =
     bind_result (simple_exp self) (\<lambda>left self.
       case current_token self of
         None \<Rightarrow> Inr (left, self)
       | Some op \<Rightarrow>
           if snd op \<in> set [''LESSTHAN'', ''EQUAL''] then
             bind_result (if snd op = ''LESSTHAN'' then match ''LESSTHAN'' self
                          else match ''EQUAL'' self) (\<lambda>_ self.
             bind_result (simple_exp self) (\<lambda>right self.
               Inr (Exp left op right, self)))
           else Inr (left, self))"
| "simple_exp self =
     bind_result (term_rule self) (\<lambda>left self. simple_exp_loop left self)"
| "simple_exp_loop left self =
     (case current_token self of
        None \<Rightarrow> Inr (left, self)
      | Some op \<Rightarrow>
          if snd op \<in> set [''PLUS'', ''MINUS''] then
            bind_result (if snd op = ''PLUS'' then match ''PLUS'' self
                         else match ''MINUS'' self) (\<lambda>_ self.
            bind_result (term_rule self) (\<lambda>right self.
              simple_exp_loop (SimpleExp left op right) self))
          else Inr (left, self))"
| "term_rule self =
     bind_result (factor self) (\<lambda>left self. term_loop left self)"
| "term_loop left self =
     (case current_token self of
        None \<Rightarrow> Inr (left, self)
      | Some op \<Rightarrow>
          if snd op \<in> set [''MULT'', ''DIV''] then
            bind_result (if snd op = ''MULT'' then match ''MULT'' self
                         else match ''DIV'' self) (\<lambda>_ self.
            bind_result (factor self) (\<lambda>right self.
              term_loop (Term left op right) self))
          else Inr (left, self))"
| "factor self =
     (case current_token self of
        None \<Rightarrow> Inl UnexpectedEndOfInput
      | Some (token_value, token_type) \<Rightarrow>
          if token_type = ''OPENBRACKET'' then
            bind_result (match ''OPENBRACKET'' self) (\<lambda>_ self.
            bind_result (exp self) (\<lambda>exp_value self.
            bind_result (match ''CLOSEDBRACKET'' self) (\<lambda>_ self.
              Inr (FactorExp exp_value, self))))
          else if token_type = ''NUMBER'' then
            bind_result (match ''NUMBER'' self) (\<lambda>t self. Inr (FactorToken t, self))
          else if token_type = ''IDENTIFIER'' then
            bind_result (match ''IDENTIFIER'' self) (\<lambda>t self. Inr (FactorToken t, self))
          else Inl (UnexpectedToken token_value token_type))"
  by pat_completeness auto

text \<open>
  Termination: every rule that returns leaves the token list as it is and the cursor at
  the same or a later index (\<open>advanced\<close>), and \<open>match\<close> moves it forward; so the number of
  tokens after the cursor, with the rules ranked in the order of their calls, decreases
  along every call.
\<close>

lemma bind_result_InrE:
  assumes "bind_result m f = Inr r"
  obtains a s where "m = Inr (a, s)" and "f a s = Inr r"
  using assms by (auto simp: bind_result_Inr_iff)

lemma advance_parser_at: "advance self = parser_at (tokens self) (Suc (current_token_index self))"
  by (simp add: advance_def parser_at_def)

lemma consistent_advance: "consistent (advance self)"
  by (simp add: consistent_def advance_parser_at parser_at_def)

lemma match_advanced:
  "match k self = Inr (t, self') \<Longrightarrow> advanced self self'"
  by (auto simp: match_Inr_iff advanced_def consistent_advance)

lemma advanced_refl: "advanced s s"
  by (simp add: advanced_def)

lemma advanced_trans: "advanced s1 s2 \<Longrightarrow> advanced s2 s3 \<Longrightarrow> advanced s1 s3"
  by (auto simp: advanced_def)

lemma match_if_advanced:
  "(if c then match k1 self else match k2 self) = Inr (t, self') \<Longrightarrow> advanced self self'"
  by (cases c) (simp_all add: match_advanced)

lemma lookahead_cases:
  assumes "(case current_token s of
              None \<Rightarrow> Inr (l, s)
            | Some op \<Rightarrow>
                if snd op \<in> set [k1, k2] then
                  bind_result (if snd op = k1 then match k1 s else match k2 s) (F op)
                else Inr (l, s)) = Inr (a, s')"
  obtains (stop) "a = l" and "s' = s"
    | (step) op t s2 where "current_token s = Some op" and "snd op \<in> set [k1, k2]"
        and "(if snd op = k1 then match k1 s else match k2 s) = Inr (t, s2)"
        and "F op t s2 = Inr (a, s')"
proof (cases "current_token s")
  case None
  with assms stop show ?thesis by simp
next
  case (Some op)
  show ?thesis
  proof (cases "snd op \<in> set [k1, k2]")
    case False
    with assms Some stop show ?thesis by simp
  next
    case True
    with assms Some
    have "bind_result (if snd op = k1 then match k1 s else match k2 s) (F op) = Inr (a, s')"
      by simp
    then obtain t s2 where "(if snd op = k1 then match k1 s else match k2 s) = Inr (t, s2)"
      and "F op t s2 = Inr (a, s')" by (rule bind_result_InrE)
    with Some True step show ?thesis by blast
  qed
qed

lemma exp_advanced_partial:
  "exp_simple_exp_simple_exp_loop_term_rule_term_loop_factor_dom (Inl (Inl s1)) \<Longrightarrow>
     \<forall>a s'. exp s1 = Inr (a, s') \<longrightarrow> advanced s1 s'"
  "exp_simple_exp_simple_exp_loop_term_rule_term_loop_factor_dom (Inl (Inr (Inl s2))) \<Longrightarrow>
     \<forall>a s'. simple_exp s2 = Inr (a, s') \<longrightarrow> advanced s2 s'"
  "exp_simple_exp_simple_exp_loop_term_rule_term_loop_factor_dom (Inl (Inr (Inr (l3, s3)))) \<Longrightarrow>
     \<forall>a s'. simple_exp_loop l3 s3 = Inr (a, s') \<longrightarrow> advanced s3 s'"
  "exp_simple_exp_simple_exp_loop_term_rule_term_loop_factor_dom (Inr (Inl s4)) \<Longrightarrow>
     \<forall>a s'. term_rule s4 = Inr (a, s') \<longrightarrow> advanced s4 s'"
  "exp_simple_exp_simple_exp_loop_term_rule_term_loop_factor_dom (Inr (Inr (Inl (l5, s5)))) \<Longrightarrow>
     \<forall>a s'. term_loop l5 s5 = Inr (a, s') \<longrightarrow> advanced s5 s'"
  "exp_simple_exp_simple_exp_loop_term_rule_term_loop_factor_dom (Inr (Inr (Inr s6))) \<Longrightarrow>
     \<forall>a s'. factor s6 = Inr (a, s') \<longrightarrow> advanced s6 s'"
proof (induct s1 and s2 and l3 s3 and s4 and l5 s5 and s6
    rule: exp_simple_exp_simple_exp_loop_term_rule_term_loop_factor.pinduct)
  case (1 self)
  show ?case
  proof (intro allI impI)
    fix a s' assume "exp self = Inr (a, s')"
    then obtain left s1 where se: "simple_exp self = Inr (left, s1)"
      and k: "(case current_token s1 of
                None \<Rightarrow> Inr (left, s1)
              | Some op \<Rightarrow>
                  if snd op \<in> set [''LESSTHAN'', ''EQUAL''] then
                    bind_result (if snd op = ''LESSTHAN'' then match ''LESSTHAN'' s1
                                 else match ''EQUAL'' s1)
                      (\<lambda>_ self. bind_result (simple_exp self) (\<lambda>right self.
                         Inr (Exp left op right, self)))
                  else Inr (left, s1)) = Inr (a, s')"
      unfolding exp.psimps [OF "1.hyps"(1)] by (rule bind_result_InrE)
    from "1.hyps"(2) se have a1: "advanced self s1" by blast
    from k show "advanced self s'"
    proof (cases rule: lookahead_cases)
      case stop
      with a1 show ?thesis by simp
    next
      case (step op t s2)
      from step(4) obtain right where r: "simple_exp s2 = Inr (right, s')"
        by (auto elim!: bind_result_InrE)
      from "1.hyps"(3) [OF se step(1,2,3)] r have "advanced s2 s'" by blast
      with a1 match_if_advanced [OF step(3)] show ?thesis by (blast intro: advanced_trans)
    qed
  qed
next
  case (2 self)
  show ?case
  proof (intro allI impI)
    fix a s' assume "simple_exp self = Inr (a, s')"
    then obtain left s1 where t: "term_rule self = Inr (left, s1)"
      and l: "simple_exp_loop left s1 = Inr (a, s')"
      unfolding simple_exp.psimps [OF "2.hyps"(1)] by (rule bind_result_InrE)
    from "2.hyps"(2) t have "advanced self s1" by blast
    moreover from "2.hyps"(3) [OF t] l have "advanced s1 s'" by blast
    ultimately show "advanced self s'" by (rule advanced_trans)
  qed
next
  case (3 left self)
  show ?case
  proof (intro allI impI)
    fix a s' assume "simple_exp_loop left self = Inr (a, s')"
    then show "advanced self s'"
      unfolding simple_exp_loop.psimps [OF "3.hyps"(1)]
    proof (cases rule: lookahead_cases)
      case stop
      then show ?thesis by (simp add: advanced_refl)
    next
      case (step op t s2)
      from step(4) obtain right s3 where tr: "term_rule s2 = Inr (right, s3)"
        and lp: "simple_exp_loop (SimpleExp left op right) s3 = Inr (a, s')"
        by (rule bind_result_InrE)
      from "3.hyps"(2) [OF step(1,2,3)] tr have "advanced s2 s3" by blast
      moreover from "3.hyps"(3) [OF step(1,2,3) tr] lp have "advanced s3 s'" by blast
      ultimately show ?thesis
        using match_if_advanced [OF step(3)] by (blast intro: advanced_trans)
    qed
  qed
next
  case (4 self)
  show ?case
  proof (intro allI impI)
    fix a s' assume "term_rule self = Inr (a, s')"
    then obtain left s1 where t: "factor self = Inr (left, s1)"
      and l: "term_loop left s1 = Inr (a, s')"
      unfolding term_rule.psimps [OF "4.hyps"(1)] by (rule bind_result_InrE)
    from "4.hyps"(2) t have "advanced self s1" by blast
    moreover from "4.hyps"(3) [OF t] l have "advanced s1 s'" by blast
    ultimately show "advanced self s'" by (rule advanced_trans)
  qed
next
  case (5 left self)
  show ?case
  proof (intro allI impI)
    fix a s' assume "term_loop left self = Inr (a, s')"
    then show "advanced self s'"
      unfolding term_loop.psimps [OF "5.hyps"(1)]
    proof (cases rule: lookahead_cases)
      case stop
      then show ?thesis by (simp add: advanced_refl)
    next
      case (step op t s2)
      from step(4) obtain right s3 where tr: "factor s2 = Inr (right, s3)"
        and lp: "term_loop (Term left op right) s3 = Inr (a, s')"
        by (rule bind_result_InrE)
      from "5.hyps"(2) [OF step(1,2,3)] tr have "advanced s2 s3" by blast
      moreover from "5.hyps"(3) [OF step(1,2,3) tr] lp have "advanced s3 s'" by blast
      ultimately show ?thesis
        using match_if_advanced [OF step(3)] by (blast intro: advanced_trans)
    qed
  qed
next
  case (6 self)
  show ?case
  proof (intro allI impI)
    fix a s' assume r: "factor self = Inr (a, s')"
    note ps = factor.psimps [OF "6.hyps"(1)]
    from r obtain token_value token_type where ct: "current_token self = Some (token_value, token_type)"
      unfolding ps by (cases "current_token self") auto
    show "advanced self s'"
    proof (cases "token_type = ''OPENBRACKET''")
      case True
      with r ct obtain t s1 exp_value s2 t' where m1: "match ''OPENBRACKET'' self = Inr (t, s1)"
        and e: "exp s1 = Inr (exp_value, s2)" and m2: "match ''CLOSEDBRACKET'' s2 = Inr (t', s')"
        unfolding ps by (auto elim!: bind_result_InrE)
      from "6.hyps"(2) [OF ct refl True m1] e have "advanced s1 s2" by blast
      with match_advanced [OF m1] match_advanced [OF m2] show ?thesis
        by (blast intro: advanced_trans)
    next
      case False
      with r ct show ?thesis
        unfolding ps by (auto elim!: bind_result_InrE dest: match_advanced split: if_splits)
    qed
  qed
qed

definition remaining :: "parser \<Rightarrow> nat" where
  "remaining self = length (tokens self) - current_token_index self"

lemma advanced_remaining: "advanced s s' \<Longrightarrow> remaining s' \<le> remaining s"
  by (auto simp: advanced_def remaining_def)

lemma match_remaining': "match k s = Inr (t, s') \<Longrightarrow> Suc (remaining s') \<le> remaining s"
  by (auto simp: match_Inr_iff remaining_def)

lemma match_if_remaining:
  "(if c then match k1 s else match k2 s) = Inr (t, s') \<Longrightarrow> Suc (remaining s') \<le> remaining s"
  by (cases c) (simp_all add: match_remaining')

lemma exp_rules_total: "All exp_simple_exp_simple_exp_loop_term_rule_term_loop_factor_dom"
  apply (relation "measure (\<lambda>x. case x of
      Inl (Inl s) \<Rightarrow> 6 * remaining s + 5
    | Inl (Inr (Inl s)) \<Rightarrow> 6 * remaining s + 4
    | Inl (Inr (Inr (l, s))) \<Rightarrow> 6 * remaining s + 3
    | Inr (Inl s) \<Rightarrow> 6 * remaining s + 2
    | Inr (Inr (Inl (l, s))) \<Rightarrow> 6 * remaining s + 1
    | Inr (Inr (Inr s)) \<Rightarrow> 6 * remaining s)")
  apply simp_all
  subgoal premises p for self a s x2 aa sa
  proof -
    from exp_advanced_partial(2) [OF p(5)] p(1) have "advanced self s" by blast
    from advanced_remaining [OF this] match_if_remaining [OF p(4)] show ?thesis by simp
  qed
  subgoal premises p for self a s
  proof -
    from exp_advanced_partial(4) [OF p(2)] p(1) have "advanced self s" by blast
    from advanced_remaining [OF this] show ?thesis by simp
  qed
  subgoal premises p for self x2 a s
    using match_if_remaining [OF p(3)] by simp
  subgoal premises p for self x2 a s aa sa
  proof -
    from exp_advanced_partial(4) [OF p(5)] p(4) have "advanced s sa" by blast
    from advanced_remaining [OF this] match_if_remaining [OF p(3)] show ?thesis by simp
  qed
  subgoal premises p for self a s
  proof -
    from exp_advanced_partial(6) [OF p(2)] p(1) have "advanced self s" by blast
    from advanced_remaining [OF this] show ?thesis by simp
  qed
  subgoal premises p for self x2 a s
    using match_if_remaining [OF p(3)] by simp
  subgoal premises p for self x2 a s aa sa
  proof -
    from exp_advanced_partial(6) [OF p(5)] p(4) have "advanced s sa" by blast
    from advanced_remaining [OF this] match_if_remaining [OF p(3)] show ?thesis by simp
  qed
  subgoal premises p for self x2 x y a s
    using match_remaining' [OF p(4)] by simp
  done

termination exp
  by (rule exp_rules_total)

declare exp.simps [simp del] simple_exp.simps [simp del] simple_exp_loop.simps [simp del]
  term_rule.simps [simp del] term_loop.simps [simp del] factor.simps [simp del]

lemmas exp_rules_dom = exp_rules_total [THEN spec]

lemma exp_advanced: "exp self = Inr (a, s') \<Longrightarrow> advanced self s'"
  and simple_exp_advanced: "simple_exp self = Inr (a, s') \<Longrightarrow> advanced self s'"
  and simple_exp_loop_advanced: "simple_exp_loop l self = Inr (a, s') \<Longrightarrow> advanced self s'"
  and term_rule_advanced: "term_rule self = Inr (a, s') \<Longrightarrow> advanced self s'"
  and term_loop_advanced: "term_loop l self = Inr (a, s') \<Longrightarrow> advanced self s'"
  and factor_advanced: "factor self = Inr (a, s') \<Longrightarrow> advanced self s'"
  using exp_advanced_partial [OF exp_rules_dom] by blast+

text \<open>
  The rules for statements; \<open>stmt_sequence_loop\<close> is the \<open>while\<close> loop of
  \<open>stmt_sequence\<close>, a function of the list \<open>statements\<close> built so far.
\<close>

definition assign_stmt :: "parser \<Rightarrow> parse_error + (ast \<times> parser)" where
  "assign_stmt self =
     bind_result (match ''IDENTIFIER'' self) (\<lambda>identifier self.
     bind_result (match ''ASSIGN'' self) (\<lambda>_ self.
     bind_result (exp self) (\<lambda>val self.
       Inr (AssignStmt identifier val, self))))"

definition read_stmt :: "parser \<Rightarrow> parse_error + (ast \<times> parser)" where
  "read_stmt self =
     bind_result (match ''READ'' self) (\<lambda>_ self.
     bind_result (match ''IDENTIFIER'' self) (\<lambda>identifier self.
       Inr (ReadStmt identifier, self)))"

definition write_stmt :: "parser \<Rightarrow> parse_error + (ast \<times> parser)" where
  "write_stmt self =
     bind_result (match ''WRITE'' self) (\<lambda>_ self.
     bind_result (exp self) (\<lambda>val self.
       Inr (WriteStmt val, self)))"

function stmt_sequence :: "parser \<Rightarrow> parse_error + (ast \<times> parser)"
  and stmt_sequence_loop :: "ast list \<Rightarrow> parser \<Rightarrow> parse_error + (ast \<times> parser)"
  and statement :: "parser \<Rightarrow> parse_error + (ast \<times> parser)"
  and if_stmt :: "parser \<Rightarrow> parse_error + (ast \<times> parser)"
  and repeat_stmt :: "parser \<Rightarrow> parse_error + (ast \<times> parser)"
where
  "stmt_sequence self =
     bind_result (statement self) (\<lambda>st self. stmt_sequence_loop [st] self)"
| "stmt_sequence_loop statements self =
     (case current_token self of
        None \<Rightarrow> Inr (StmtSequence statements, self)
      | Some tok \<Rightarrow>
          if snd tok = ''SEMICOLON'' then
            bind_result (match ''SEMICOLON'' self) (\<lambda>_ self.
              case current_token self of
                None \<Rightarrow> Inr (StmtSequence statements, self)
              | Some tok \<Rightarrow>
                  if snd tok \<notin> set [''END'', ''UNTIL''] then
                    bind_result (statement self) (\<lambda>st self.
                      stmt_sequence_loop (statements @ [st]) self)
                  else Inr (StmtSequence statements, self))
          else Inr (StmtSequence statements, self))"
| "statement self =
     (case current_token self of
        None \<Rightarrow> Inl UnexpectedEndOfInput
      | Some (token_value, token_type) \<Rightarrow>
          if token_type = ''IF'' then if_stmt self
          else if token_type = ''REPEAT'' then repeat_stmt self
          else if token_type = ''READ'' then read_stmt self
          else if token_type = ''WRITE'' then write_stmt self
          else if token_type = ''IDENTIFIER'' then assign_stmt self
          else Inl (UnexpectedToken token_value token_type))"
| "if_stmt self =
     bind_result (match ''IF'' self) (\<lambda>_ self.
     bind_result (exp self) (\<lambda>condition self.
     bind_result (match ''THEN'' self) (\<lambda>_ self.
     bind_result (stmt_sequence self) (\<lambda>body self.
     bind_result (match ''END'' self) (\<lambda>_ self.
       Inr (IfStmt condition body, self))))))"
| "repeat_stmt self =
     bind_result (match ''REPEAT'' self) (\<lambda>_ self.
     bind_result (stmt_sequence self) (\<lambda>body self.
     bind_result (match ''UNTIL'' self) (\<lambda>_ self.
     bind_result (exp self) (\<lambda>condition self.
       Inr (RepeatStmt body condition, self)))))"
  by pat_completeness auto

lemma assign_stmt_advanced: "assign_stmt self = Inr (a, s') \<Longrightarrow> advanced self s'"
  unfolding assign_stmt_def
  by (elim bind_result_InrE) (auto dest!: match_advanced exp_advanced intro: advanced_trans)

lemma read_stmt_advanced: "read_stmt self = Inr (a, s') \<Longrightarrow> advanced self s'"
  unfolding read_stmt_def
  by (elim bind_result_InrE) (auto dest!: match_advanced intro: advanced_trans)

lemma write_stmt_advanced: "write_stmt self = Inr (a, s') \<Longrightarrow> advanced self s'"
  unfolding write_stmt_def
  by (elim bind_result_InrE) (auto dest!: match_advanced exp_advanced intro: advanced_trans)

lemma stmt_loop_cases:
  assumes "(case current_token s of
              None \<Rightarrow> Inr (StmtSequence sts, s)
            | Some tok \<Rightarrow>
                if snd tok = ''SEMICOLON'' then
                  bind_result (match ''SEMICOLON'' s) (\<lambda>_ self.
                    case current_token self of
                      None \<Rightarrow> Inr (StmtSequence sts, self)
                    | Some tok \<Rightarrow>
                        if snd tok \<notin> set [''END'', ''UNTIL''] then F self
                        else Inr (StmtSequence sts, self))
                else Inr (StmtSequence sts, s)) = Inr (a, s')"
  obtains (stop) "a = StmtSequence sts" and "s' = s"
    | (trailing) tok t where "current_token s = Some tok" and "snd tok = ''SEMICOLON''"
        and "match ''SEMICOLON'' s = Inr (t, s')" and "a = StmtSequence sts"
    | (step) tok t s1 tok' where "current_token s = Some tok" and "snd tok = ''SEMICOLON''"
        and "match ''SEMICOLON'' s = Inr (t, s1)" and "current_token s1 = Some tok'"
        and "snd tok' \<notin> set [''END'', ''UNTIL'']" and "F s1 = Inr (a, s')"
proof (cases "current_token s")
  case None
  with assms stop show ?thesis by simp
next
  case (Some tok)
  show ?thesis
  proof (cases "snd tok = ''SEMICOLON''")
    case False
    with assms Some stop show ?thesis by simp
  next
    case True
    with assms Some obtain t s1 where m: "match ''SEMICOLON'' s = Inr (t, s1)"
      and k: "(case current_token s1 of
                 None \<Rightarrow> Inr (StmtSequence sts, s1)
               | Some tok \<Rightarrow>
                   if snd tok \<notin> set [''END'', ''UNTIL''] then F s1
                   else Inr (StmtSequence sts, s1)) = Inr (a, s')"
      by (auto elim: bind_result_InrE)
    show ?thesis
    proof (cases "current_token s1")
      case None
      with k have "a = StmtSequence sts" "s' = s1" by simp_all
      with Some True m trailing show ?thesis by blast
    next
      case tok': (Some tok')
      show ?thesis
      proof (cases "snd tok' \<notin> set [''END'', ''UNTIL'']")
        case False
        with k tok' have "a = StmtSequence sts" "s' = s1" by auto
        with Some True m trailing show ?thesis by blast
      next
        case nt: True
        with k tok' have "F s1 = Inr (a, s')" by simp
        with Some True m tok' nt step show ?thesis by blast
      qed
    qed
  qed
qed

lemma stmt_advanced_partial:
  "stmt_sequence_stmt_sequence_loop_statement_if_stmt_repeat_stmt_dom (Inl (Inl s1)) \<Longrightarrow>
     \<forall>a s'. stmt_sequence s1 = Inr (a, s') \<longrightarrow> advanced s1 s'"
  "stmt_sequence_stmt_sequence_loop_statement_if_stmt_repeat_stmt_dom (Inl (Inr (l2, s2))) \<Longrightarrow>
     \<forall>a s'. stmt_sequence_loop l2 s2 = Inr (a, s') \<longrightarrow> advanced s2 s'"
  "stmt_sequence_stmt_sequence_loop_statement_if_stmt_repeat_stmt_dom (Inr (Inl s3)) \<Longrightarrow>
     \<forall>a s'. statement s3 = Inr (a, s') \<longrightarrow> advanced s3 s'"
  "stmt_sequence_stmt_sequence_loop_statement_if_stmt_repeat_stmt_dom (Inr (Inr (Inl s4))) \<Longrightarrow>
     \<forall>a s'. if_stmt s4 = Inr (a, s') \<longrightarrow> advanced s4 s'"
  "stmt_sequence_stmt_sequence_loop_statement_if_stmt_repeat_stmt_dom (Inr (Inr (Inr s5))) \<Longrightarrow>
     \<forall>a s'. repeat_stmt s5 = Inr (a, s') \<longrightarrow> advanced s5 s'"
proof (induct s1 and l2 s2 and s3 and s4 and s5
    rule: stmt_sequence_stmt_sequence_loop_statement_if_stmt_repeat_stmt.pinduct)
  case (1 self)
  show ?case
  proof (intro allI impI)
    fix a s' assume "stmt_sequence self = Inr (a, s')"
    then obtain st s1 where t: "statement self = Inr (st, s1)"
      and l: "stmt_sequence_loop [st] s1 = Inr (a, s')"
      unfolding stmt_sequence.psimps [OF "1.hyps"(1)] by (rule bind_result_InrE)
    from "1.hyps"(2) t have "advanced self s1" by blast
    moreover from "1.hyps"(3) [OF t] l have "advanced s1 s'" by blast
    ultimately show "advanced self s'" by (rule advanced_trans)
  qed
next
  case (2 statements self)
  show ?case
  proof (intro allI impI)
    fix a s' assume "stmt_sequence_loop statements self = Inr (a, s')"
    then show "advanced self s'"
      unfolding stmt_sequence_loop.psimps [OF "2.hyps"(1)]
    proof (cases rule: stmt_loop_cases)
      case stop
      then show ?thesis by (simp add: advanced_refl)
    next
      case (trailing tok t)
      then show ?thesis by (simp add: match_advanced)
    next
      case (step tok t s1 tok')
      from step(6) obtain st s2 where st: "statement s1 = Inr (st, s2)"
        and lp: "stmt_sequence_loop (statements @ [st]) s2 = Inr (a, s')"
        by (rule bind_result_InrE)
      from "2.hyps"(2) [OF step(1,2,3,4,5)] st have "advanced s1 s2" by blast
      moreover from "2.hyps"(3) [OF step(1,2,3,4,5) st] lp have "advanced s2 s'" by blast
      ultimately show ?thesis
        using match_advanced [OF step(3)] by (blast intro: advanced_trans)
    qed
  qed
next
  case (3 self)
  show ?case
  proof (intro allI impI)
    fix a s' assume r: "statement self = Inr (a, s')"
    note ps = statement.psimps [OF "3.hyps"(1)]
    from r obtain token_value token_type
      where ct: "current_token self = Some (token_value, token_type)"
      unfolding ps by (cases "current_token self") auto
    consider (i) "token_type = ''IF''" | (r) "token_type \<noteq> ''IF''" "token_type = ''REPEAT''"
      | (o) "token_type \<noteq> ''IF''" "token_type \<noteq> ''REPEAT''" by blast
    then show "advanced self s'"
    proof cases
      case i
      with r ct have "if_stmt self = Inr (a, s')" unfolding ps by simp
      with "3.hyps"(2) [OF ct refl i] show ?thesis by blast
    next
      case r
      with \<open>statement self = Inr (a, s')\<close> ct have "repeat_stmt self = Inr (a, s')"
        unfolding ps by simp
      with "3.hyps"(3) [OF ct refl r] show ?thesis by blast
    next
      case o
      with r ct show ?thesis unfolding ps
        by (auto split: if_splits
            dest: read_stmt_advanced write_stmt_advanced assign_stmt_advanced)
    qed
  qed
next
  case (4 self)
  show ?case
  proof (intro allI impI)
    fix a s' assume "if_stmt self = Inr (a, s')"
    then obtain t1 s1 c s2 t2 s3 b s4 t3 where m1: "match ''IF'' self = Inr (t1, s1)"
      and e: "exp s1 = Inr (c, s2)" and m2: "match ''THEN'' s2 = Inr (t2, s3)"
      and b: "stmt_sequence s3 = Inr (b, s4)" and m3: "match ''END'' s4 = Inr (t3, s')"
      unfolding if_stmt.psimps [OF "4.hyps"(1)] by (auto elim!: bind_result_InrE)
    from "4.hyps"(2) [OF m1 e m2] b have "advanced s3 s4" by blast
    with match_advanced [OF m1] exp_advanced [OF e] match_advanced [OF m2] match_advanced [OF m3]
    show "advanced self s'" by (blast intro: advanced_trans)
  qed
next
  case (5 self)
  show ?case
  proof (intro allI impI)
    fix a s' assume "repeat_stmt self = Inr (a, s')"
    then obtain t1 s1 b s2 t2 s3 c where m1: "match ''REPEAT'' self = Inr (t1, s1)"
      and b: "stmt_sequence s1 = Inr (b, s2)" and m2: "match ''UNTIL'' s2 = Inr (t2, s3)"
      and e: "exp s3 = Inr (c, s')"
      unfolding repeat_stmt.psimps [OF "5.hyps"(1)] by (auto elim!: bind_result_InrE)
    from "5.hyps"(2) [OF m1] b have "advanced s1 s2" by blast
    with match_advanced [OF m1] exp_advanced [OF e] match_advanced [OF m2]
    show "advanced self s'" by (blast intro: advanced_trans)
  qed
qed

lemma stmt_rules_total:
  "All stmt_sequence_stmt_sequence_loop_statement_if_stmt_repeat_stmt_dom"
  apply (relation "measure (\<lambda>x. case x of
      Inl (Inl s) \<Rightarrow> 4 * remaining s + 3
    | Inl (Inr (l, s)) \<Rightarrow> 4 * remaining s + 2
    | Inr (Inl s) \<Rightarrow> 4 * remaining s + 1
    | Inr (Inr (Inl s)) \<Rightarrow> 4 * remaining s
    | Inr (Inr (Inr s)) \<Rightarrow> 4 * remaining s)")
  apply simp_all
  subgoal premises p for self a s
  proof -
    from stmt_advanced_partial(3) [OF p(2)] p(1) have "advanced self s" by blast
    from advanced_remaining [OF this] show ?thesis by simp
  qed
  subgoal premises p for self x2 a s x2a
    using match_remaining' [OF p(3)] by simp
  subgoal premises p for self x2 a s x2a aa sa
  proof -
    from stmt_advanced_partial(3) [OF p(7)] p(6) have "advanced s sa" by blast
    from advanced_remaining [OF this] match_remaining' [OF p(3)] show ?thesis by simp
  qed
  subgoal premises p for self a s aa sa ab sb
    using match_remaining' [OF p(1)] advanced_remaining [OF exp_advanced [OF p(2)]]
      match_remaining' [OF p(3)] by simp
  subgoal premises p for self a s
    using match_remaining' [OF p(1)] by simp
  done

termination stmt_sequence
  by (rule stmt_rules_total)

declare stmt_sequence.simps [simp del] stmt_sequence_loop.simps [simp del]
  statement.simps [simp del] if_stmt.simps [simp del] repeat_stmt.simps [simp del]

lemmas stmt_rules_dom = stmt_rules_total [THEN spec]

lemma stmt_sequence_advanced: "stmt_sequence self = Inr (a, s') \<Longrightarrow> advanced self s'"
  and stmt_sequence_loop_advanced:
    "stmt_sequence_loop l self = Inr (a, s') \<Longrightarrow> advanced self s'"
  and statement_advanced: "statement self = Inr (a, s') \<Longrightarrow> advanced self s'"
  and if_stmt_advanced: "if_stmt self = Inr (a, s') \<Longrightarrow> advanced self s'"
  and repeat_stmt_advanced: "repeat_stmt self = Inr (a, s') \<Longrightarrow> advanced self s'"
  using stmt_advanced_partial [OF stmt_rules_dom] by blast+

text \<open>
  \<open>parse\<close> returns \<open>Inr\<close> of the syntax tree for \<open>(True, syntax_tree)\<close> and \<open>Inl\<close> of the
  exception for \<open>(False, str(e))\<close>. \<open>parse_file\<close> loads the tokens of a file and parses
  them; the \<open>ValueError\<close> of its loader is raised outside the \<open>try\<close> of \<open>parse\<close>.
\<close>

definition program :: "parser \<Rightarrow> parse_error + (ast \<times> parser)" where
  "program self = bind_result (stmt_sequence self) (\<lambda>body self. Inr (Program body, self))"

definition parse :: "token list \<Rightarrow> parse_error + ast" where
  "parse toks =
     (let self = \<lparr>tokens = toks, current_token_index = 0,
                  current_token = (if toks \<noteq> [] then Some (toks ! 0) else None)\<rparr>
      in case program self of
           Inl e \<Rightarrow> Inl e
         | Inr (syntax_tree, self) \<Rightarrow>
             if current_token_index self < length (tokens self)
             then Inl (UnexpectedTrailing (current_token self))
             else Inr syntax_tree)"

definition parse_file :: "string \<Rightarrow> load_error + (parse_error + ast)" where
  "parse_file content =
     (case load_tokens content of Inl e \<Rightarrow> Inl e | Inr toks \<Rightarrow> Inr (parse toks))"

section \<open>Properties of the scanner\<close>

lemma scan_iter_enough:
  "length code - position \<le> n \<Longrightarrow>
     scan_iter n code position toks = Some (scan_loop code position toks)"
proof (induction n arbitrary: position toks)
  case 0
  then show ?case by (simp add: scan_loop.simps)
next
  case (Suc n)
  show ?case
  proof (cases "position < length code")
    case False
    then show ?thesis by (simp add: scan_loop.simps)
  next
    case True
    show ?thesis
    proof (cases "scan_step code position toks")
      case (Inl e)
      with True show ?thesis by (simp add: scan_loop.simps [of code position])
    next
      case (Inr r)
      obtain p' t' where r: "r = (p', t')" by (cases r)
      from scan_step_advances [OF True Inr [unfolded r]] Suc.prems
      have "length code - p' \<le> n" by arith
      from Suc.IH [OF this] True Inr r show ?thesis
        by (simp add: scan_loop.simps [of code position])
    qed
  qed
qed

lemma is_letter_not_space: "is_letter c \<Longrightarrow> \<not> isspace c"
  by (auto simp: is_letter_def isspace_def Let_def)

lemma is_digit_not_space: "is_digit c \<Longrightarrow> \<not> isspace c"
  by (auto simp: is_digit_def isspace_def Let_def)

lemma takeWhile_append_stop:
  "(\<forall>x\<in>set xs. P x) \<longrightarrow> rest = [] \<or> \<not> P (hd rest) \<Longrightarrow>
     takeWhile P (xs @ rest) = takeWhile P xs"
  by (induction xs) (auto simp: takeWhile_eq_Nil_iff)

lemma identifier_match_append:
  assumes "xs \<noteq> []" and "rest = [] \<or> \<not> is_alnum (hd rest) \<or> \<not> is_alnum (last xs)"
  shows "identifier_match (xs @ rest) = identifier_match xs"
proof (cases xs)
  case Nil
  with assms show ?thesis by simp
next
  case (Cons c cs)
  have "takeWhile is_alnum (cs @ rest) = takeWhile is_alnum cs" if "is_letter c"
  proof (rule takeWhile_append_stop, rule impI)
    assume all: "\<forall>x\<in>set cs. is_alnum x"
    from that have "is_alnum c" by (simp add: is_alnum_def)
    with all Cons have "is_alnum (last xs)" by (auto simp: last_ConsR split: if_splits)
    with assms show "rest = [] \<or> \<not> is_alnum (hd rest)" by blast
  qed
  with Cons show ?thesis by (simp add: identifier_match_def)
qed

lemma number_match_append:
  assumes "xs \<noteq> []" and "rest = [] \<or> \<not> is_alnum (hd rest) \<or> \<not> is_alnum (last xs)"
  shows "number_match (xs @ rest) = number_match xs"
proof -
  have "takeWhile is_digit (xs @ rest) = takeWhile is_digit xs"
  proof (rule takeWhile_append_stop, rule impI)
    assume all: "\<forall>x\<in>set xs. is_digit x"
    with assms(1) have "is_alnum (last xs)" by (simp add: is_alnum_def)
    with assms show "rest = [] \<or> \<not> is_digit (hd rest)" by (auto simp: is_alnum_def)
  qed
  then show ?thesis by (simp add: number_match_def)
qed

lemma scan_step_append:
  assumes p: "position < length code"
    and step: "scan_step code position toks = Inr r"
    and bd: "rest = [] \<or> \<not> is_alnum (hd rest) \<or> \<not> is_alnum (last code)"
  shows "scan_step (code @ rest) position toks = Inr r"
proof -
  let ?xs = "drop position code"
  from p have ne: "?xs \<noteq> []" by simp
  from p have la: "last ?xs = last code" by simp
  from p have nth: "(code @ rest) ! position = code ! position" by (simp add: nth_append)
  have dr: "drop position (code @ rest) = ?xs @ rest" using p by simp
  from bd la have bd': "rest = [] \<or> \<not> is_alnum (hd rest) \<or> \<not> is_alnum (last ?xs)" by simp
  note im = identifier_match_append [OF ne bd'] and nm = number_match_append [OF ne bd']
  have t2: "take 2 (?xs @ rest) = '':='' \<Longrightarrow> \<not> (position + 1 < length code \<and> take 2 ?xs = '':='')
      \<Longrightarrow> map_of TOKEN_TYPES [code ! position] = None"
  proof -
    assume a: "take 2 (?xs @ rest) = '':=''" and b: "\<not> (position + 1 < length code \<and> take 2 ?xs = '':='')"
    from ne obtain c cs where xs: "?xs = c # cs" by (cases ?xs) auto
    with a have "c = CHR '':''" by simp
    moreover from xs p have "code ! position = c"
      by (metis hd_drop_conv_nth list.sel(1))
    ultimately show ?thesis by (simp add: TOKEN_TYPES_def)
  qed
  from step show ?thesis
    unfolding scan_step_def nth dr im nm
    using t2 p
    by (auto simp: Let_def split: if_splits option.splits)
qed

lemma scan_loop_append:
  assumes "scan_loop code position toks = Inr toks'"
    and "position \<le> length code"
    and "rest = [] \<or> \<not> is_alnum (hd rest) \<or> code = [] \<or> \<not> is_alnum (last code)"
  shows "scan_loop (code @ rest) position toks = scan_loop (code @ rest) (length code) toks'"
  using assms
proof (induction code position toks rule: scan_loop.induct)
  case (1 code position toks)
  show ?case
  proof (cases "position < length code")
    case False
    with "1.prems" show ?thesis by (simp add: scan_loop.simps [of code position])
  next
    case True
    then have cne: "code \<noteq> []" by auto
    from True "1.prems"(1) obtain p' t' where st: "scan_step code position toks = Inr (p', t')"
      and rec: "scan_loop code p' t' = Inr toks'"
      by (auto simp: scan_loop.simps [of code position] split: sum.splits)
    from "1.prems"(3) cne have bd: "rest = [] \<or> \<not> is_alnum (hd rest) \<or> \<not> is_alnum (last code)"
      by blast
    from scan_step_append [OF True st bd]
    have st': "scan_step (code @ rest) position toks = Inr (p', t')" .
    from scan_step_advances [OF True st] have "p' \<le> length code" by simp
    from "1.IH" [OF True st refl rec this "1.prems"(3)]
    have "scan_loop (code @ rest) p' t' = scan_loop (code @ rest) (length code) toks'" .
    with st' True show ?thesis by (simp add: scan_loop.simps [of "code @ rest" position])
  qed
qed

lemma is_letter_not_digit: "is_letter c \<Longrightarrow> \<not> is_digit c"
  by (auto simp: is_letter_def is_digit_def Let_def)

lemma scan_step_before_letter:
  assumes p: "position < length (pre @ ds)"
    and step: "scan_step (pre @ ds) position toks = Inr r"
    and pre: "pre = [] \<or> \<not> is_alnum (last pre)"
    and ds: "\<forall>c\<in>set ds. is_digit c"
    and rest: "rest \<noteq> []" "is_letter (hd rest)"
  shows "scan_step (pre @ ds @ rest) position toks = Inr r"
proof -
  let ?code = "pre @ ds"
  let ?xs = "drop position ?code"
  from p have ne: "?xs \<noteq> []" by auto
  from p have nth: "(?code @ rest) ! position = ?code ! position"
    by (simp only: nth_append [of "pre @ ds" rest] if_True)
  have dr: "drop position (?code @ rest) = ?xs @ rest"
    using p by (simp only: drop_append [of position "pre @ ds" rest]) simp
  from ne obtain c cs where xs: "?xs = c # cs" by (cases ?xs) auto
  with p have c: "?code ! position = c" by (metis hd_drop_conv_nth list.sel(1))
  have "takeWhile is_alnum (cs @ rest) = takeWhile is_alnum cs" if l: "is_letter c"
  proof (rule takeWhile_append_stop, rule impI)
    assume all: "\<forall>x\<in>set cs. is_alnum x"
    from l have "is_alnum c" by (simp add: is_alnum_def)
    with all xs have alln: "\<forall>x\<in>set ?xs. is_alnum x" by simp
    have "position < length pre"
    proof (rule ccontr)
      assume "\<not> position < length pre"
      with p c have "c \<in> set ds" by (auto simp: nth_append)
      with ds l show False by (auto dest: is_letter_not_digit)
    qed
    then have "drop position pre \<noteq> []" by simp
    then have "last (drop position pre) \<in> set (drop position pre)" by (rule last_in_set)
    moreover from \<open>position < length pre\<close> have "last (drop position pre) = last pre" by simp
    ultimately have "last pre \<in> set ?xs" by simp
    with alln have "is_alnum (last pre)" by blast
    with pre \<open>position < length pre\<close> show "rest = [] \<or> \<not> is_alnum (hd rest)" by auto
  qed
  with xs have im: "identifier_match (?xs @ rest) = identifier_match ?xs"
    by (simp add: identifier_match_def)
  have "takeWhile is_digit (?xs @ rest) = takeWhile is_digit ?xs"
    using rest(2) by (intro takeWhile_append_stop) (simp add: is_letter_not_digit)
  then have nm: "number_match (?xs @ rest) = number_match ?xs" by (simp add: number_match_def)
  have t2: "take 2 (?xs @ rest) = '':='' \<Longrightarrow>
      \<not> (position + 1 < length ?code \<and> take 2 ?xs = '':='')
      \<Longrightarrow> map_of TOKEN_TYPES [?code ! position] = None"
  proof -
    assume a: "take 2 (?xs @ rest) = '':=''"
    with xs have "c = CHR '':''" by simp
    with c show ?thesis by (simp add: TOKEN_TYPES_def)
  qed
  have "scan_step (?code @ rest) position toks = Inr r"
    using step unfolding scan_step_def nth dr im nm
    using t2 p
    by (auto simp: Let_def split: if_splits option.splits)
  then show ?thesis by simp
qed

lemma scan_loop_before_letter:
  assumes "scan_loop (pre @ ds) position toks = Inr toks'"
    and "position \<le> length (pre @ ds)"
    and "pre = [] \<or> \<not> is_alnum (last pre)"
    and "\<forall>c\<in>set ds. is_digit c"
    and "rest \<noteq> []" and "is_letter (hd rest)"
  shows "scan_loop (pre @ ds @ rest) position toks =
           scan_loop (pre @ ds @ rest) (length (pre @ ds)) toks'"
  using assms(1,2)
proof (induction "pre @ ds" position toks rule: scan_loop.induct)
  case (1 position toks)
  let ?code = "pre @ ds"
  show ?case
  proof (cases "position < length ?code")
    case False
    with "1.prems" show ?thesis by (simp add: scan_loop.simps [of ?code position])
  next
    case True
    from True "1.prems"(1) obtain p' t' where st: "scan_step ?code position toks = Inr (p', t')"
      and rec: "scan_loop ?code p' t' = Inr toks'"
      by (auto simp: scan_loop.simps [of ?code position] split: sum.splits)
    from scan_step_before_letter [OF True st assms(3,4,5,6)]
    have st': "scan_step (pre @ ds @ rest) position toks = Inr (p', t')" .
    from scan_step_advances [OF True st] have "p' \<le> length ?code" by simp
    from "1.hyps" [OF True st refl rec this]
    have "scan_loop (pre @ ds @ rest) p' t' = scan_loop (pre @ ds @ rest) (length ?code) toks'" .
    moreover from True have "position < length (pre @ ds @ rest)" by simp
    ultimately show ?thesis using st'
      by (simp add: scan_loop.simps [of "pre @ ds @ rest" position])
  qed
qed

lemma alnum_block_split:
  assumes "\<forall>c\<in>set (takeWhile is_alnum (rev before)). \<not> is_letter c"
  obtains pre ds where "before = pre @ ds" and "pre = [] \<or> \<not> is_alnum (last pre)"
    and "\<forall>c\<in>set ds. is_digit c"
proof
  let ?ds = "rev (takeWhile is_alnum (rev before))"
  let ?pre = "rev (dropWhile is_alnum (rev before))"
  have "rev before = rev ?ds @ rev ?pre" by simp
  then have "rev before = rev (?pre @ ?ds)" by (simp only: rev_append)
  then show "before = ?pre @ ?ds" by (simp only: rev_is_rev_conv)
  show "?pre = [] \<or> \<not> is_alnum (last ?pre)"
  proof (cases "dropWhile is_alnum (rev before) = []")
    case True
    then show ?thesis by simp
  next
    case False
    then have "\<not> is_alnum (hd (dropWhile is_alnum (rev before)))" by (rule hd_dropWhile)
    then show ?thesis by (simp only: last_rev) simp
  qed
  show "\<forall>c\<in>set ?ds. is_digit c"
  proof
    fix c assume c: "c \<in> set ?ds"
    then have "is_alnum c" by (auto dest: set_takeWhileD)
    moreover from c assms have "\<not> is_letter c" by simp
    ultimately show "is_digit c" by (simp add: is_alnum_def)
  qed
qed

lemma scan_loop_extends:
  "scan_loop code position toks = Inr all \<Longrightarrow> \<exists>more. all = toks @ more"
proof (induction code position toks rule: scan_loop.induct)
  case (1 code position toks)
  show ?case
  proof (cases "position < length code")
    case False
    with "1.prems" show ?thesis by (simp add: scan_loop.simps [of code position])
  next
    case True
    with "1.prems" obtain p' t' where st: "scan_step code position toks = Inr (p', t')"
      and rec: "scan_loop code p' t' = Inr all"
      by (auto simp: scan_loop.simps [of code position] split: sum.splits)
    from "1.IH" [OF True st refl rec] obtain more where m: "all = t' @ more" ..
    from st have "\<exists>new. t' = toks @ new"
      by (auto simp: scan_step_def Let_def split: if_splits option.splits)
    with m show ?thesis by auto
  qed
qed

lemma TOKEN_TYPES_distinct: "distinct (map fst TOKEN_TYPES)"
  by code_simp

lemma reserved_word_lookup:
  "(x, k) \<in> set (take 7 TOKEN_TYPES) \<Longrightarrow> map_of TOKEN_TYPES x = Some k"
  by (rule map_of_is_SomeI [OF TOKEN_TYPES_distinct]) (rule set_mp [OF set_take_subset])

definition plain :: "string \<Rightarrow> bool" where
  "plain s = (\<forall>c\<in>set s. c \<noteq> CHR '','' \<and> \<not> isspace c)"

lemma isspace_newline: "isspace (CHR 0x0A)" "isspace (CHR 0x0D)"
  by (simp_all add: isspace_def)

lemma comma_not_space: "\<not> isspace (CHR '','')"
  by (simp add: isspace_def)

lemma plain_no_newline: "plain s \<Longrightarrow> CHR 0x0A \<notin> set s \<and> CHR 0x0D \<notin> set s"
  unfolding plain_def using isspace_newline by blast

lemma universal_newlines_id: "CHR 0x0D \<notin> set s \<Longrightarrow> universal_newlines s = s"
  by (induction s rule: universal_newlines.induct) auto

lemma file_lines_line:
  "CHR 0x0A \<notin> set l \<Longrightarrow> file_lines line (l @ CHR 0x0A # rest) = (line @ l @ [CHR 0x0A]) # file_lines [] rest"
  by (induction l arbitrary: line) auto

lemma split_comma_last: "CHR '','' \<notin> set s \<Longrightarrow> split_comma part s = [part @ s]"
  by (induction s arbitrary: part) auto

lemma split_comma_pair:
  "CHR '','' \<notin> set v \<Longrightarrow> CHR '','' \<notin> set t \<Longrightarrow> split_comma part (v @ CHR '','' # t) = [part @ v, t]"
  by (induction v arbitrary: part) (auto simp: split_comma_last)

lemma dropWhile_plain: "plain v \<Longrightarrow> dropWhile isspace (v @ CHR '','' # t) = v @ CHR '','' # t"
  by (cases v) (simp_all add: plain_def comma_not_space)

lemma strip_line:
  assumes "plain v" and "plain t"
  shows "strip (v @ '','' @ t @ [CHR 0x0A]) = v @ '','' @ t"
proof -
  have "plain (rev t)" using assms(2) by (simp add: plain_def)
  from dropWhile_plain [OF this, of "rev v"]
  have "dropWhile isspace (rev t @ CHR '','' # rev v) = rev t @ CHR '','' # rev v" .
  moreover note isspace_newline(1)
  ultimately show ?thesis
    using dropWhile_plain [OF assms(1), of "t @ [CHR 0x0A]"] by (simp add: strip_def)
qed

definition token_plain :: "token \<Rightarrow> bool" where
  "token_plain tok = (plain (fst tok) \<and> plain (snd tok))"

lemma load_save:
  "\<forall>tok\<in>set toks. token_plain tok \<Longrightarrow>
     load_lines (file_lines [] (save_tokens_to_file toks)) acc = Inr (acc @ toks)"
proof (induction toks arbitrary: acc)
  case Nil
  then show ?case by (simp add: save_tokens_to_file_def)
next
  case (Cons tok toks)
  obtain v t where tok: "tok = (v, t)" by (cases tok)
  with Cons.prems have pl: "plain v" "plain t" by (simp_all add: token_plain_def)
  then have nc: "CHR '','' \<notin> set v" "CHR '','' \<notin> set t" by (auto simp: plain_def)
  from pl have "CHR 0x0A \<notin> set (v @ '','' @ t)" by (auto dest: plain_no_newline)
  from file_lines_line [OF this, of "[]" "save_tokens_to_file toks"]
  have fl: "file_lines [] (save_tokens_to_file ((v, t) # toks)) =
      (v @ '','' @ t @ [CHR 0x0A]) # file_lines [] (save_tokens_to_file toks)"
    by (simp add: save_tokens_to_file_def)
  have sp: "split_comma [] (v @ '','' @ t) = [v, t]"
    using split_comma_pair [OF nc, of "[]"] by simp
  have st: "strip (v @ '','' @ t @ [CHR 0x0A]) = v @ '','' @ t"
    by (rule strip_line [OF pl])
  have step: "load_lines ((v @ '','' @ t @ [CHR 0x0A]) # rest) acc =
      load_lines rest (acc @ [(v, t)])" for rest
    unfolding load_lines.simps st Let_def sp by simp
  from Cons.prems have "\<forall>tok\<in>set toks. token_plain tok" by simp
  from Cons.IH [OF this, of "acc @ [(v, t)]"]
  have "load_lines (file_lines [] (save_tokens_to_file toks)) (acc @ [(v, t)]) =
      Inr (acc @ (v, t) # toks)" by simp
  then have "load_lines (file_lines [] (save_tokens_to_file ((v, t) # toks))) acc =
      Inr (acc @ (v, t) # toks)" by (simp only: fl step)
  then show ?case by (simp only: tok)
qed

lemma is_alnum_plain: "is_alnum c \<Longrightarrow> c \<noteq> CHR '','' \<and> \<not> isspace c"
proof
  assume a: "is_alnum c"
  show "c \<noteq> CHR '',''"
  proof
    assume "c = CHR '',''"
    with a show False by (simp add: is_alnum_def is_letter_def is_digit_def)
  qed
  from a show "\<not> isspace c"
    by (auto simp: is_alnum_def dest: is_letter_not_space is_digit_not_space)
qed

lemma is_digit_alnum: "is_digit c \<Longrightarrow> is_alnum c"
  by (simp add: is_alnum_def)

lemma identifier_match_plain:
  assumes "identifier_match s = Some v"
  shows "plain v"
proof -
  from assms obtain c cs where v: "v = c # takeWhile is_alnum cs" and c: "is_letter c"
    by (auto simp: identifier_match_def split: list.splits if_splits)
  from c have "is_alnum c" by (simp add: is_alnum_def)
  moreover have "\<forall>x\<in>set (takeWhile is_alnum cs). is_alnum x"
    by (auto dest: set_takeWhileD)
  ultimately have "\<forall>x\<in>set v. is_alnum x" using v by simp
  then show ?thesis unfolding plain_def using is_alnum_plain by blast
qed

lemma number_match_plain: "number_match s = Some v \<Longrightarrow> plain v"
proof -
  assume "number_match s = Some v"
  then have "v = takeWhile is_digit s" by (auto simp: number_match_def split: list.splits)
  then have "\<forall>c\<in>set v. is_alnum c" by (auto dest: set_takeWhileD is_digit_alnum)
  then show ?thesis unfolding plain_def using is_alnum_plain by blast
qed

lemma plain_literals:
  "plain ''IDENTIFIER''" "plain ''NUMBER''" "plain ''ASSIGN''" "plain '':=''"
  by code_simp+

lemma TOKEN_TYPES_plain: "list_all (\<lambda>(k, t). plain t) TOKEN_TYPES"
  by code_simp

lemma TOKEN_TYPES_kind_plain: "map_of TOKEN_TYPES k = Some t \<Longrightarrow> plain t"
proof -
  assume "map_of TOKEN_TYPES k = Some t"
  then have "(k, t) \<in> set TOKEN_TYPES" by (rule map_of_SomeD)
  with TOKEN_TYPES_plain show ?thesis unfolding list_all_iff by blast
qed

lemma comma_no_symbol: "map_of TOKEN_TYPES '','' = None"
  by code_simp

lemma token_plain_snoc:
  "\<forall>tok\<in>set toks. token_plain tok \<Longrightarrow> plain v \<Longrightarrow> plain t \<Longrightarrow>
     \<forall>tok\<in>set (toks @ [(v, t)]). token_plain tok"
  by (simp add: token_plain_def)

lemma scan_step_plain:
  assumes st: "scan_step code position toks = Inr (p', t')"
    and pl: "\<forall>tok\<in>set toks. token_plain tok"
  shows "\<forall>tok\<in>set t'. token_plain tok"
proof (cases "isspace (code ! position)")
  case True
  with st pl show ?thesis by (simp add: scan_step_def)
next
  case ns: False
  show ?thesis
  proof (cases "identifier_match (drop position code)")
    case (Some v)
    let ?t = "case map_of TOKEN_TYPES (lower v) of Some t \<Rightarrow> t | None \<Rightarrow> ''IDENTIFIER''"
    from ns Some st have t': "t' = toks @ [(v, ?t)]" by (simp add: scan_step_def)
    have "plain ?t"
      by (cases "map_of TOKEN_TYPES (lower v)") (simp_all add: plain_literals TOKEN_TYPES_kind_plain)
    from token_plain_snoc [OF pl identifier_match_plain [OF Some] this] t' show ?thesis by simp
  next
    case im: None
    show ?thesis
    proof (cases "number_match (drop position code)")
      case (Some v)
      with ns im st have t': "t' = toks @ [(v, ''NUMBER'')]" by (simp add: scan_step_def)
      from token_plain_snoc [OF pl number_match_plain [OF Some] plain_literals(2)] t'
      show ?thesis by simp
    next
      case nm: None
      show ?thesis
      proof (cases "position + 1 < length code \<and> take 2 (drop position code) = '':=''")
        case True
        with ns im nm st have t': "t' = toks @ [('':='', ''ASSIGN'')]"
          by (simp add: scan_step_def)
        from token_plain_snoc [OF pl plain_literals(4) plain_literals(3)] t'
        show ?thesis by simp
      next
        case na: False
        show ?thesis
        proof (cases "map_of TOKEN_TYPES [code ! position]")
          case None
          with ns im nm na st show ?thesis by (auto simp: scan_step_def split: if_splits)
        next
          case (Some t)
          with ns im nm na st have t': "t' = toks @ [([code ! position], t)]"
            by (auto simp: scan_step_def split: if_splits)
          from Some comma_no_symbol have "code ! position \<noteq> CHR '',''" by auto
          with ns have "plain [code ! position]" by (simp add: plain_def)
          from token_plain_snoc [OF pl this TOKEN_TYPES_kind_plain [OF Some]] t'
          show ?thesis by simp
        qed
      qed
    qed
  qed
qed

lemma scan_loop_plain:
  "scan_loop code position toks = Inr all \<Longrightarrow> \<forall>tok\<in>set toks. token_plain tok \<Longrightarrow>
     \<forall>tok\<in>set all. token_plain tok"
proof (induction code position toks rule: scan_loop.induct)
  case (1 code position toks)
  show ?case
  proof (cases "position < length code")
    case False
    with "1.prems" show ?thesis by (simp add: scan_loop.simps [of code position])
  next
    case True
    with "1.prems" obtain p' t' where st: "scan_step code position toks = Inr (p', t')"
      and rec: "scan_loop code p' t' = Inr all"
      by (auto simp: scan_loop.simps [of code position] split: sum.splits)
    from "1.IH" [OF True st refl rec scan_step_plain [OF st "1.prems"(2)]] show ?thesis .
  qed
qed

lemma save_no_carriage_return:
  "\<forall>tok\<in>set toks. token_plain tok \<Longrightarrow> CHR 0x0D \<notin> set (save_tokens_to_file toks)"
proof (induction toks)
  case Nil
  then show ?case by (simp add: save_tokens_to_file_def)
next
  case (Cons tok toks)
  obtain v t where tok: "tok = (v, t)" by (cases tok)
  with Cons.prems have "plain v" "plain t" by (simp_all add: token_plain_def)
  then have "CHR 0x0D \<notin> set v" "CHR 0x0D \<notin> set t" by (simp_all add: plain_no_newline)
  moreover from Cons have "CHR 0x0D \<notin> set (save_tokens_to_file toks)" by simp
  ultimately show ?case by (simp add: save_tokens_to_file_def tok)
qed

section \<open>Properties of the parser\<close>

lemma parser_at_simps [simp]:
  "tokens (parser_at ts i) = ts"
  "current_token_index (parser_at ts i) = i"
  "current_token (parser_at ts i) = (if i < length ts then Some (ts ! i) else None)"
  by (simp_all add: parser_at_def)

lemma consistent_parser_at [simp]: "consistent (parser_at ts i)"
  by (simp add: consistent_def)

lemma match_at:
  "match k (parser_at ts i) =
     (if length ts \<le> i then Inl UnexpectedEndOfInput
      else if snd (ts ! i) \<noteq> k then Inl (Expected k (snd (ts ! i)))
      else Inr (ts ! i, parser_at ts (Suc i)))"
  by (cases "ts ! i") (simp add: match_def parser_at_def)

lemma advanced_at:
  assumes "advanced (parser_at ts i) s'"
  obtains j where "i \<le> j" and "s' = parser_at ts j" and "i \<le> length ts \<Longrightarrow> j \<le> length ts"
proof -
  from assms have "consistent s'" "tokens s' = ts" "i \<le> current_token_index s'"
    "i \<le> length ts \<longrightarrow> current_token_index s' \<le> length ts"
    by (simp_all add: advanced_def)
  then show ?thesis using that [of "current_token_index s'"] by (simp add: consistent_def)
qed

lemma simple_exp_loop_at:
  "simple_exp_loop left (parser_at ts i) =
     (if i < length ts \<and> snd (ts ! i) \<in> set [''PLUS'', ''MINUS''] then
        bind_result (term_rule (parser_at ts (Suc i))) (\<lambda>right self.
          simple_exp_loop (SimpleExp left (ts ! i) right) self)
      else Inr (left, parser_at ts i))"
  by (subst simple_exp_loop.simps) (auto simp: match_at)

lemma term_loop_at:
  "term_loop left (parser_at ts i) =
     (if i < length ts \<and> snd (ts ! i) \<in> set [''MULT'', ''DIV''] then
        bind_result (factor (parser_at ts (Suc i))) (\<lambda>right self.
          term_loop (Term left (ts ! i) right) self)
      else Inr (left, parser_at ts i))"
  by (subst term_loop.simps) (auto simp: match_at)

lemma factor_at:
  "factor (parser_at ts i) =
     (if length ts \<le> i then Inl UnexpectedEndOfInput
      else if snd (ts ! i) = ''OPENBRACKET'' then
        bind_result (exp (parser_at ts (Suc i))) (\<lambda>exp_value self.
        bind_result (match ''CLOSEDBRACKET'' self) (\<lambda>_ self.
          Inr (FactorExp exp_value, self)))
      else if snd (ts ! i) = ''NUMBER'' \<or> snd (ts ! i) = ''IDENTIFIER'' then
        Inr (FactorToken (ts ! i), parser_at ts (Suc i))
      else Inl (UnexpectedToken (fst (ts ! i)) (snd (ts ! i))))"
  by (subst factor.simps) (auto simp: match_at split: prod.splits)

lemma stmt_sequence_loop_at:
  "stmt_sequence_loop statements (parser_at ts i) =
     (if i < length ts \<and> snd (ts ! i) = ''SEMICOLON'' then
        (if Suc i < length ts \<and> snd (ts ! Suc i) \<notin> set [''END'', ''UNTIL''] then
           bind_result (statement (parser_at ts (Suc i))) (\<lambda>st self.
             stmt_sequence_loop (statements @ [st]) self)
         else Inr (StmtSequence statements, parser_at ts (Suc i)))
      else Inr (StmtSequence statements, parser_at ts i))"
  by (subst stmt_sequence_loop.simps) (auto simp: match_at)

lemma program_advanced: "program self = Inr (a, s') \<Longrightarrow> advanced self s'"
  unfolding program_def by (auto elim!: bind_result_InrE dest: stmt_sequence_advanced)

lemma parse_unfold:
  "parse toks =
     (case program (parser_at toks 0) of
        Inl e \<Rightarrow> Inl e
      | Inr (syntax_tree, self) \<Rightarrow>
          if current_token_index self < length (tokens self)
          then Inl (UnexpectedTrailing (current_token self))
          else Inr syntax_tree)"
proof -
  have eq: "\<lparr>tokens = toks, current_token_index = 0,
         current_token = (if toks \<noteq> [] then Some (toks ! 0) else None)\<rparr> = parser_at toks 0"
    by (simp add: parser_at_def)
  show ?thesis unfolding parse_def Let_def eq by (rule refl)
qed

lemma result_at: "advanced (parser_at ts i) s' \<Longrightarrow> \<exists>j\<ge>i. s' = parser_at ts j"
  by (erule advanced_at) blast

lemma parser_at_inject [simp]: "parser_at ts i = parser_at ts j \<longleftrightarrow> i = j"
  by (auto simp: parser_at_def)

lemma match_at_Inr:
  "match k (parser_at ts i) = Inr (t, s') \<longleftrightarrow>
     i < length ts \<and> snd (ts ! i) = k \<and> t = ts ! i \<and> s' = parser_at ts (Suc i)"
  by (auto simp: match_at)

lemma exp_at:
  assumes "simple_exp (parser_at ts i) = Inr (left, parser_at ts j)"
  shows "exp (parser_at ts i) =
     (if j < length ts \<and> snd (ts ! j) \<in> set [''LESSTHAN'', ''EQUAL''] then
        bind_result (simple_exp (parser_at ts (Suc j))) (\<lambda>right self.
          Inr (Exp left (ts ! j) right, self))
      else Inr (left, parser_at ts j))"
  by (subst exp.simps) (auto simp: assms match_at)

lemma statement_at:
  "statement (parser_at ts i) =
     (if length ts \<le> i then Inl UnexpectedEndOfInput
      else if snd (ts ! i) = ''IF'' then if_stmt (parser_at ts i)
      else if snd (ts ! i) = ''REPEAT'' then repeat_stmt (parser_at ts i)
      else if snd (ts ! i) = ''READ'' then read_stmt (parser_at ts i)
      else if snd (ts ! i) = ''WRITE'' then write_stmt (parser_at ts i)
      else if snd (ts ! i) = ''IDENTIFIER'' then assign_stmt (parser_at ts i)
      else Inl (UnexpectedToken (fst (ts ! i)) (snd (ts ! i))))"
  by (subst statement.simps) (auto split: prod.splits)

lemma other_kind_position:
  "snd (ts ! m) \<in> set [''LESSTHAN'', ''EQUAL''] \<Longrightarrow> snd (ts ! k) \<in> set [''LESSTHAN'', ''EQUAL''] \<Longrightarrow>
     snd (ts ! x) = kind \<Longrightarrow> kind \<notin> set [''LESSTHAN'', ''EQUAL''] \<Longrightarrow> x \<noteq> m \<and> x \<noteq> k"
  by auto

lemma exp_chain_bounds:
  assumes cm: "snd (ts ! m) \<in> set [''LESSTHAN'', ''EQUAL'']"
    and ck: "snd (ts ! k) \<in> set [''LESSTHAN'', ''EQUAL'']" and kl: "k < length ts"
    and mid: "simple_exp (parser_at ts (Suc m)) = Inr (r, parser_at ts k)"
  shows "(\<forall>a j. factor (parser_at ts i) = Inr (a, parser_at ts j) \<longrightarrow> i \<le> m \<longrightarrow> j \<le> m) \<and>
    (\<forall>l a j. term_loop l (parser_at ts i) = Inr (a, parser_at ts j) \<longrightarrow> i \<le> m \<longrightarrow> j \<le> m) \<and>
    (\<forall>a j. term_rule (parser_at ts i) = Inr (a, parser_at ts j) \<longrightarrow> i \<le> m \<longrightarrow> j \<le> m) \<and>
    (\<forall>l a j. simple_exp_loop l (parser_at ts i) = Inr (a, parser_at ts j) \<longrightarrow> i \<le> m \<longrightarrow> j \<le> m) \<and>
    (\<forall>a j. simple_exp (parser_at ts i) = Inr (a, parser_at ts j) \<longrightarrow> i \<le> m \<longrightarrow> j \<le> m) \<and>
    (\<forall>a j. exp (parser_at ts i) = Inr (a, parser_at ts j) \<longrightarrow> i \<le> m \<longrightarrow> j \<le> m \<or> j = k)"
proof (induction "length ts - i" arbitrary: i rule: less_induct)
  case less
  from result_at [OF simple_exp_advanced [OF mid]] have "Suc m \<le> k" by simp
  with kl have len: "m < length ts" by simp
  note other = other_kind_position [OF cm ck]
  note IH = less [rule_format]
  have F: "j \<le> m" if r: "factor (parser_at ts i) = Inr (a, parser_at ts j)" and i: "i \<le> m"
    for a j
  proof (cases "snd (ts ! i) = ''OPENBRACKET''")
    case True
    from i len have il: "i < length ts" by simp
    from other [OF True] i have im: "Suc i \<le> m" by simp
    from r il True obtain ev s2 t where e: "exp (parser_at ts (Suc i)) = Inr (ev, s2)"
      and m2: "match ''CLOSEDBRACKET'' s2 = Inr (t, parser_at ts j)"
      by (auto simp: factor_at elim!: bind_result_InrE)
    from result_at [OF exp_advanced [OF e]] obtain j1 where s2: "s2 = parser_at ts j1" by blast
    from il have "length ts - Suc i < length ts - i" by simp
    from IH [OF this] e s2 im have "j1 \<le> m \<or> j1 = k" by blast
    moreover from m2 s2 have "snd (ts ! j1) = ''CLOSEDBRACKET''" "j = Suc j1"
      by (simp_all add: match_at_Inr)
    moreover from other [OF this(1)] have "j1 \<noteq> m \<and> j1 \<noteq> k" by simp
    ultimately show ?thesis by auto
  next
    case False
    from i len have il: "i < length ts" by simp
    from r il False have k: "snd (ts ! i) = ''NUMBER'' \<or> snd (ts ! i) = ''IDENTIFIER''"
      and j: "j = Suc i"
      by (auto simp: factor_at split: if_splits)
    from k cm have "i \<noteq> m" by auto
    with i j show ?thesis by simp
  qed
  have TL: "j \<le> m"
    if r: "term_loop l (parser_at ts i) = Inr (a, parser_at ts j)" and i: "i \<le> m" for l a j
  proof (cases "i < length ts \<and> snd (ts ! i) \<in> set [''MULT'', ''DIV'']")
    case False
    with r have "j = i" by (subst (asm) term_loop_at) auto
    with i show ?thesis by simp
  next
    case True
    then obtain kd where kd: "snd (ts ! i) = kd" "kd \<in> set [''MULT'', ''DIV'']" by blast
    then have "kd \<notin> set [''LESSTHAN'', ''EQUAL'']" by auto
    from other [OF kd(1) this] i have im: "Suc i \<le> m" by simp
    from r True obtain right s2 where f: "factor (parser_at ts (Suc i)) = Inr (right, s2)"
      and lp: "term_loop (Term l (ts ! i) right) s2 = Inr (a, parser_at ts j)"
      by (subst (asm) term_loop_at) (auto elim!: bind_result_InrE)
    from result_at [OF factor_advanced [OF f]] obtain j1 where s2: "s2 = parser_at ts j1"
      and j1: "Suc i \<le> j1" by blast
    from True have d: "length ts - Suc i < length ts - i" by auto
    from IH [OF d] f s2 im have b1: "j1 \<le> m" by blast
    from True j1 have "length ts - j1 < length ts - i" by auto
    from IH [OF this] lp s2 b1 show ?thesis by blast
  qed
  have T: "j \<le> m" if r: "term_rule (parser_at ts i) = Inr (a, parser_at ts j)" and i: "i \<le> m"
    for a j
  proof -
    from r obtain left s1 where f: "factor (parser_at ts i) = Inr (left, s1)"
      and lp: "term_loop left s1 = Inr (a, parser_at ts j)"
      by (subst (asm) term_rule.simps) (auto elim!: bind_result_InrE)
    from result_at [OF factor_advanced [OF f]] obtain j1 where s1: "s1 = parser_at ts j1"
      and j1: "i \<le> j1" by blast
    from F f s1 i have b1: "j1 \<le> m" by blast
    show ?thesis
    proof (cases "j1 = i")
      case True
      with TL lp s1 b1 show ?thesis by blast
    next
      case False
      with j1 i len have "length ts - j1 < length ts - i" by simp
      from IH [OF this] lp s1 b1 show ?thesis by blast
    qed
  qed
  have SL: "j \<le> m"
    if r: "simple_exp_loop l (parser_at ts i) = Inr (a, parser_at ts j)" and i: "i \<le> m" for l a j
  proof (cases "i < length ts \<and> snd (ts ! i) \<in> set [''PLUS'', ''MINUS'']")
    case False
    with r have "j = i" by (subst (asm) simple_exp_loop_at) auto
    with i show ?thesis by simp
  next
    case True
    then obtain kd where kd: "snd (ts ! i) = kd" "kd \<in> set [''PLUS'', ''MINUS'']" by blast
    then have "kd \<notin> set [''LESSTHAN'', ''EQUAL'']" by auto
    from other [OF kd(1) this] i have im: "Suc i \<le> m" by simp
    from r True obtain right s2 where f: "term_rule (parser_at ts (Suc i)) = Inr (right, s2)"
      and lp: "simple_exp_loop (SimpleExp l (ts ! i) right) s2 = Inr (a, parser_at ts j)"
      by (subst (asm) simple_exp_loop_at) (auto elim!: bind_result_InrE)
    from result_at [OF term_rule_advanced [OF f]] obtain j1 where s2: "s2 = parser_at ts j1"
      and j1: "Suc i \<le> j1" by blast
    from True have d: "length ts - Suc i < length ts - i" by auto
    from IH [OF d] f s2 im have b1: "j1 \<le> m" by blast
    from True j1 have "length ts - j1 < length ts - i" by auto
    from IH [OF this] lp s2 b1 show ?thesis by blast
  qed
  have S: "j \<le> m" if r: "simple_exp (parser_at ts i) = Inr (a, parser_at ts j)" and i: "i \<le> m"
    for a j
  proof -
    from r obtain left s1 where f: "term_rule (parser_at ts i) = Inr (left, s1)"
      and lp: "simple_exp_loop left s1 = Inr (a, parser_at ts j)"
      by (subst (asm) simple_exp.simps) (auto elim!: bind_result_InrE)
    from result_at [OF term_rule_advanced [OF f]] obtain j1 where s1: "s1 = parser_at ts j1"
      and j1: "i \<le> j1" by blast
    from T f s1 i have b1: "j1 \<le> m" by blast
    show ?thesis
    proof (cases "j1 = i")
      case True
      with SL lp s1 b1 show ?thesis by blast
    next
      case False
      with j1 i len have "length ts - j1 < length ts - i" by simp
      from IH [OF this] lp s1 b1 show ?thesis by blast
    qed
  qed
  have E: "j \<le> m \<or> j = k" if r: "exp (parser_at ts i) = Inr (a, parser_at ts j)" and i: "i \<le> m"
    for a j
  proof -
    from r obtain left s1 where f: "simple_exp (parser_at ts i) = Inr (left, s1)"
      by (subst (asm) exp.simps) (auto elim!: bind_result_InrE)
    from result_at [OF simple_exp_advanced [OF f]] obtain j1 where s1: "s1 = parser_at ts j1"
      and j1: "i \<le> j1" by blast
    from S f s1 i have b1: "j1 \<le> m" by blast
    from r f s1 have tail: "(if j1 < length ts \<and> snd (ts ! j1) \<in> set [''LESSTHAN'', ''EQUAL''] then
        bind_result (simple_exp (parser_at ts (Suc j1))) (\<lambda>right self.
          Inr (Exp left (ts ! j1) right, self))
      else Inr (left, parser_at ts j1)) = Inr (a, parser_at ts j)"
      by (simp add: exp_at)
    show ?thesis
    proof (cases "j1 < length ts \<and> snd (ts ! j1) \<in> set [''LESSTHAN'', ''EQUAL'']")
      case False
      with tail have "j = j1" by auto
      with b1 show ?thesis by simp
    next
      case True
      from True tail obtain right where se: "simple_exp (parser_at ts (Suc j1)) = Inr (right, parser_at ts j)"
        by (auto elim!: bind_result_InrE)
      show ?thesis
      proof (cases "j1 = m")
        case True
        with se mid show ?thesis by simp
      next
        case False
        with b1 have sm: "Suc j1 \<le> m" by simp
        from True j1 have "length ts - Suc j1 < length ts - i" by auto
        from IH [OF this] se sm show ?thesis by fastforce
      qed
    qed
  qed
  from F TL T SL S E show ?case by blast
qed

lemma exp_chain_bound:
  assumes "snd (ts ! m) \<in> set [''LESSTHAN'', ''EQUAL'']"
    and "snd (ts ! k) \<in> set [''LESSTHAN'', ''EQUAL'']" and "k < length ts"
    and "simple_exp (parser_at ts (Suc m)) = Inr (r, parser_at ts k)"
    and "exp (parser_at ts i) = Inr (a, parser_at ts j)" and "i \<le> m"
  shows "j \<le> m \<or> j = k"
  using exp_chain_bounds [OF assms(1-4), of i] assms(5,6) by blast

lemma stmt_chain_bounds:
  assumes cm: "snd (ts ! m) \<in> set [''LESSTHAN'', ''EQUAL'']"
    and ck: "snd (ts ! k) \<in> set [''LESSTHAN'', ''EQUAL'']" and kl: "k < length ts"
    and mid: "simple_exp (parser_at ts (Suc m)) = Inr (r, parser_at ts k)"
  shows "(\<forall>a j. if_stmt (parser_at ts i) = Inr (a, parser_at ts j) \<longrightarrow> i \<le> m \<longrightarrow> j \<le> m \<or> j = k) \<and>
    (\<forall>a j. repeat_stmt (parser_at ts i) = Inr (a, parser_at ts j) \<longrightarrow> i \<le> m \<longrightarrow> j \<le> m \<or> j = k) \<and>
    (\<forall>a j. statement (parser_at ts i) = Inr (a, parser_at ts j) \<longrightarrow> i \<le> m \<longrightarrow> j \<le> m \<or> j = k) \<and>
    (\<forall>l a j. stmt_sequence_loop l (parser_at ts i) = Inr (a, parser_at ts j) \<longrightarrow>
        i \<le> m \<or> i = k \<longrightarrow> j \<le> m \<or> j = k) \<and>
    (\<forall>a j. stmt_sequence (parser_at ts i) = Inr (a, parser_at ts j) \<longrightarrow> i \<le> m \<longrightarrow> j \<le> m \<or> j = k)"
proof (induction "length ts - i" arbitrary: i rule: less_induct)
  case less
  from result_at [OF simple_exp_advanced [OF mid]] have mk: "Suc m \<le> k" by simp
  with kl have len: "m < length ts" by simp
  note other = other_kind_position [OF cm ck]
  note eb = exp_chain_bound [OF cm ck kl mid]
  note IH = less [rule_format]
  have I: "j \<le> m \<or> j = k" if r: "if_stmt (parser_at ts i) = Inr (a, parser_at ts j)" and i: "i \<le> m"
    for a j
  proof -
    from r obtain c s2 t2 s3 b s4 t3 where kd: "snd (ts ! i) = ''IF''"
      and e: "exp (parser_at ts (Suc i)) = Inr (c, s2)"
      and m2: "match ''THEN'' s2 = Inr (t2, s3)"
      and b: "stmt_sequence s3 = Inr (b, s4)"
      and m3: "match ''END'' s4 = Inr (t3, parser_at ts j)"
      by (subst (asm) if_stmt.simps) (auto elim!: bind_result_InrE simp: match_at_Inr)
    from other [OF kd] i have i1: "Suc i \<le> m" by simp
    from result_at [OF exp_advanced [OF e]] obtain j2 where s2: "s2 = parser_at ts j2"
      and j2: "Suc i \<le> j2" by blast
    from eb [OF e [unfolded s2] i1] have b2: "j2 \<le> m \<or> j2 = k" .
    from m2 s2 have k2: "snd (ts ! j2) = ''THEN''" and s3: "s3 = parser_at ts (Suc j2)"
      by (simp_all add: match_at_Inr)
    from other [OF k2] b2 have i3: "Suc j2 \<le> m" by auto
    from result_at [OF stmt_sequence_advanced [OF b [unfolded s3]]]
    obtain j4 where s4: "s4 = parser_at ts j4" by blast
    from j2 i len have "length ts - Suc j2 < length ts - i" by simp
    from IH [OF this] b s3 s4 i3 have b4: "j4 \<le> m \<or> j4 = k" by blast
    from m3 s4 have k4: "snd (ts ! j4) = ''END''" and j: "j = Suc j4"
      by (simp_all add: match_at_Inr)
    from other [OF k4] b4 j show ?thesis by auto
  qed
  have R: "j \<le> m \<or> j = k"
    if r: "repeat_stmt (parser_at ts i) = Inr (a, parser_at ts j)" and i: "i \<le> m" for a j
  proof -
    from r obtain b s2 t2 s3 c where kd: "snd (ts ! i) = ''REPEAT''"
      and b: "stmt_sequence (parser_at ts (Suc i)) = Inr (b, s2)"
      and m2: "match ''UNTIL'' s2 = Inr (t2, s3)"
      and e: "exp s3 = Inr (c, parser_at ts j)"
      by (subst (asm) repeat_stmt.simps) (auto elim!: bind_result_InrE simp: match_at_Inr)
    from other [OF kd] i have i1: "Suc i \<le> m" by simp
    from result_at [OF stmt_sequence_advanced [OF b]] obtain j2 where s2: "s2 = parser_at ts j2"
      by blast
    from i len have "length ts - Suc i < length ts - i" by simp
    from IH [OF this] b s2 i1 have b2: "j2 \<le> m \<or> j2 = k" by blast
    from m2 s2 have k2: "snd (ts ! j2) = ''UNTIL''" and s3: "s3 = parser_at ts (Suc j2)"
      by (simp_all add: match_at_Inr)
    from other [OF k2] b2 have i3: "Suc j2 \<le> m" by auto
    from eb [OF e [unfolded s3] i3] show ?thesis .
  qed
  have A: "j \<le> m \<or> j = k"
    if r: "assign_stmt (parser_at ts i) = Inr (a, parser_at ts j)" and i: "i \<le> m" for a j
  proof -
    from r obtain val where kd: "snd (ts ! i) = ''IDENTIFIER''" "snd (ts ! Suc i) = ''ASSIGN''"
      and e: "exp (parser_at ts (Suc (Suc i))) = Inr (val, parser_at ts j)"
      unfolding assign_stmt_def by (auto elim!: bind_result_InrE simp: match_at_Inr)
    from other [OF kd(1)] other [OF kd(2)] i have "Suc (Suc i) \<le> m" by simp
    from eb [OF e this] show ?thesis .
  qed
  have RD: "j \<le> m \<or> j = k"
    if r: "read_stmt (parser_at ts i) = Inr (a, parser_at ts j)" and i: "i \<le> m" for a j
  proof -
    from r have kd: "snd (ts ! i) = ''READ''" "snd (ts ! Suc i) = ''IDENTIFIER''"
      and j: "j = Suc (Suc i)"
      unfolding read_stmt_def by (auto elim!: bind_result_InrE simp: match_at_Inr)
    from other [OF kd(1)] other [OF kd(2)] i j show ?thesis by simp
  qed
  have W: "j \<le> m \<or> j = k"
    if r: "write_stmt (parser_at ts i) = Inr (a, parser_at ts j)" and i: "i \<le> m" for a j
  proof -
    from r obtain val where kd: "snd (ts ! i) = ''WRITE''"
      and e: "exp (parser_at ts (Suc i)) = Inr (val, parser_at ts j)"
      unfolding write_stmt_def by (auto elim!: bind_result_InrE simp: match_at_Inr)
    from other [OF kd] i have "Suc i \<le> m" by simp
    from eb [OF e this] show ?thesis .
  qed
  have S: "j \<le> m \<or> j = k"
    if r: "statement (parser_at ts i) = Inr (a, parser_at ts j)" and i: "i \<le> m" for a j
    using r i I R A RD W by (subst (asm) statement_at) (auto split: if_splits)
  have L: "j \<le> m \<or> j = k"
    if r: "stmt_sequence_loop l (parser_at ts i) = Inr (a, parser_at ts j)"
      and i: "i \<le> m \<or> i = k" for l a j
  proof (cases "i < length ts \<and> snd (ts ! i) = ''SEMICOLON''")
    case False
    with r have "j = i" by (subst (asm) stmt_sequence_loop_at) auto
    with i show ?thesis by simp
  next
    case semi: True
    with other [of i "''SEMICOLON''"] i have i1: "Suc i \<le> m" by auto
    show ?thesis
    proof (cases "Suc i < length ts \<and> snd (ts ! Suc i) \<notin> set [''END'', ''UNTIL'']")
      case False
      with r semi have "j = Suc i" by (subst (asm) stmt_sequence_loop_at) auto
      with i1 show ?thesis by simp
    next
      case True
      with r semi obtain st s2 where st: "statement (parser_at ts (Suc i)) = Inr (st, s2)"
        and lp: "stmt_sequence_loop (l @ [st]) s2 = Inr (a, parser_at ts j)"
        by (subst (asm) stmt_sequence_loop_at) (auto elim!: bind_result_InrE)
      from result_at [OF statement_advanced [OF st]] obtain j2 where s2: "s2 = parser_at ts j2"
        and j2: "Suc i \<le> j2" by blast
      from semi have d: "length ts - Suc i < length ts - i" by auto
      from IH [OF d] st s2 i1 have b2: "j2 \<le> m \<or> j2 = k" by blast
      from semi j2 have "length ts - j2 < length ts - i" by auto
      from IH [OF this] lp s2 b2 show ?thesis by blast
    qed
  qed
  have Q: "j \<le> m \<or> j = k"
    if r: "stmt_sequence (parser_at ts i) = Inr (a, parser_at ts j)" and i: "i \<le> m" for a j
  proof -
    from r obtain st s1 where f: "statement (parser_at ts i) = Inr (st, s1)"
      and lp: "stmt_sequence_loop [st] s1 = Inr (a, parser_at ts j)"
      by (subst (asm) stmt_sequence.simps) (auto elim!: bind_result_InrE)
    from result_at [OF statement_advanced [OF f]] obtain j1 where s1: "s1 = parser_at ts j1"
      and j1: "i \<le> j1" by blast
    from S f s1 i have b1: "j1 \<le> m \<or> j1 = k" by blast
    show ?thesis
    proof (cases "j1 = i")
      case True
      with L lp s1 b1 show ?thesis by blast
    next
      case False
      with j1 i len have "length ts - j1 < length ts - i" by simp
      from IH [OF this] lp s1 b1 show ?thesis by blast
    qed
  qed
  from I R S L Q show ?case by blast
qed

lemma simple_exp_single:
  assumes l: "Suc m < length ts"
    and k: "snd (ts ! m) \<in> set [''NUMBER'', ''IDENTIFIER'']"
    and o: "snd (ts ! Suc m) \<in> set [''LESSTHAN'', ''EQUAL'']"
  shows "simple_exp (parser_at ts m) = Inr (FactorToken (ts ! m), parser_at ts (Suc m))"
proof -
  from l k have f: "factor (parser_at ts m) = Inr (FactorToken (ts ! m), parser_at ts (Suc m))"
    by (subst factor_at) auto
  from o have t: "term_loop x (parser_at ts (Suc m)) = Inr (x, parser_at ts (Suc m))" for x
    by (subst term_loop_at) auto
  from o have s: "simple_exp_loop x (parser_at ts (Suc m)) = Inr (x, parser_at ts (Suc m))" for x
    by (subst simple_exp_loop_at) auto
  show ?thesis
    by (subst simple_exp.simps, subst term_rule.simps) (simp add: f t s)
qed

lemma exp_extend:
  assumes semi: "snd semi = ''SEMICOLON''"
  shows "(\<forall>a j. factor (parser_at ts i) = Inr (a, parser_at ts j) \<longrightarrow>
        factor (parser_at (ts @ [semi]) i) = Inr (a, parser_at (ts @ [semi]) j)) \<and>
    (\<forall>l a j. term_loop l (parser_at ts i) = Inr (a, parser_at ts j) \<longrightarrow>
        term_loop l (parser_at (ts @ [semi]) i) = Inr (a, parser_at (ts @ [semi]) j)) \<and>
    (\<forall>a j. term_rule (parser_at ts i) = Inr (a, parser_at ts j) \<longrightarrow>
        term_rule (parser_at (ts @ [semi]) i) = Inr (a, parser_at (ts @ [semi]) j)) \<and>
    (\<forall>l a j. simple_exp_loop l (parser_at ts i) = Inr (a, parser_at ts j) \<longrightarrow>
        simple_exp_loop l (parser_at (ts @ [semi]) i) = Inr (a, parser_at (ts @ [semi]) j)) \<and>
    (\<forall>a j. simple_exp (parser_at ts i) = Inr (a, parser_at ts j) \<longrightarrow>
        simple_exp (parser_at (ts @ [semi]) i) = Inr (a, parser_at (ts @ [semi]) j)) \<and>
    (\<forall>a j. exp (parser_at ts i) = Inr (a, parser_at ts j) \<longrightarrow>
        exp (parser_at (ts @ [semi]) i) = Inr (a, parser_at (ts @ [semi]) j))"
proof (induction "length ts - i" arbitrary: i rule: less_induct)
  case less
  let ?ts = "ts @ [semi]"
  note IH = less [rule_format]
  have stop: "\<not> (i < length ?ts \<and> snd (?ts ! i) \<in> set ks)"
    if "\<not> (i < length ts \<and> snd (ts ! i) \<in> set ks)" and "''SEMICOLON'' \<notin> set ks" for i ks
    using that semi by (cases "i < length ts") (auto simp: nth_append)
  have F: "factor (parser_at ?ts i) = Inr (a, parser_at ?ts j)"
    if r: "factor (parser_at ts i) = Inr (a, parser_at ts j)" for a j
  proof -
    from r have il: "i < length ts" by (subst (asm) factor_at) (auto split: if_splits)
    show ?thesis
    proof (cases "snd (ts ! i) = ''OPENBRACKET''")
      case True
      from r il True obtain ev s2 t where e: "exp (parser_at ts (Suc i)) = Inr (ev, s2)"
        and m2: "match ''CLOSEDBRACKET'' s2 = Inr (t, parser_at ts j)"
        and a: "a = FactorExp ev"
        by (auto simp: factor_at elim!: bind_result_InrE)
      from result_at [OF exp_advanced [OF e]] obtain j1 where s2: "s2 = parser_at ts j1" by blast
      from il have "length ts - Suc i < length ts - i" by simp
      from IH [OF this] e s2
      have e': "exp (parser_at ?ts (Suc i)) = Inr (ev, parser_at ?ts j1)" by blast
      from m2 s2 have c: "j1 < length ts" "snd (ts ! j1) = ''CLOSEDBRACKET''" "j = Suc j1"
        by (auto simp: match_at_Inr)
      from c have "match ''CLOSEDBRACKET'' (parser_at ?ts j1) = Inr (?ts ! j1, parser_at ?ts j)"
        by (simp add: match_at nth_append)
      with il True e' a show ?thesis by (subst factor_at) (simp add: nth_append)
    next
      case False
      with r il show ?thesis
        by (subst factor_at, subst (asm) factor_at) (auto simp: nth_append split: if_splits)
    qed
  qed
  have TL: "term_loop l (parser_at ?ts i) = Inr (a, parser_at ?ts j)"
    if r: "term_loop l (parser_at ts i) = Inr (a, parser_at ts j)" for l a j
  proof (cases "i < length ts \<and> snd (ts ! i) \<in> set [''MULT'', ''DIV'']")
    case False
    with r have "a = l" "j = i" by (subst (asm) term_loop_at, auto)+
    with stop [OF False] show ?thesis by (subst term_loop_at) auto
  next
    case True
    from r True obtain right s2 where f: "factor (parser_at ts (Suc i)) = Inr (right, s2)"
      and lp: "term_loop (Term l (ts ! i) right) s2 = Inr (a, parser_at ts j)"
      by (subst (asm) term_loop_at) (auto elim!: bind_result_InrE)
    from result_at [OF factor_advanced [OF f]] obtain j1 where s2: "s2 = parser_at ts j1"
      and j1: "Suc i \<le> j1" by blast
    from True have d: "length ts - Suc i < length ts - i" by auto
    from IH [OF d] f s2 have f': "factor (parser_at ?ts (Suc i)) = Inr (right, parser_at ?ts j1)"
      by blast
    from True j1 have "length ts - j1 < length ts - i" by auto
    from IH [OF this] lp s2
    have "term_loop (Term l (ts ! i) right) (parser_at ?ts j1) = Inr (a, parser_at ?ts j)" by blast
    with True f' show ?thesis by (subst term_loop_at) (auto simp: nth_append)
  qed
  have T: "term_rule (parser_at ?ts i) = Inr (a, parser_at ?ts j)"
    if r: "term_rule (parser_at ts i) = Inr (a, parser_at ts j)" for a j
  proof -
    from r obtain left s1 where f: "factor (parser_at ts i) = Inr (left, s1)"
      and lp: "term_loop left s1 = Inr (a, parser_at ts j)"
      by (subst (asm) term_rule.simps) (auto elim!: bind_result_InrE)
    from result_at [OF factor_advanced [OF f]] obtain j1 where s1: "s1 = parser_at ts j1"
      and j1: "i \<le> j1" by blast
    from f have il: "i < length ts" by (subst (asm) factor_at) (auto split: if_splits)
    from F f s1 have f': "factor (parser_at ?ts i) = Inr (left, parser_at ?ts j1)" by blast
    have "term_loop left (parser_at ?ts j1) = Inr (a, parser_at ?ts j)"
    proof (cases "j1 = i")
      case True
      with TL lp s1 show ?thesis by blast
    next
      case False
      with j1 il have "length ts - j1 < length ts - i" by simp
      from IH [OF this] lp s1 show ?thesis by blast
    qed
    with f' show ?thesis by (subst term_rule.simps) simp
  qed
  have SL: "simple_exp_loop l (parser_at ?ts i) = Inr (a, parser_at ?ts j)"
    if r: "simple_exp_loop l (parser_at ts i) = Inr (a, parser_at ts j)" for l a j
  proof (cases "i < length ts \<and> snd (ts ! i) \<in> set [''PLUS'', ''MINUS'']")
    case False
    with r have "a = l" "j = i" by (subst (asm) simple_exp_loop_at, auto)+
    with stop [OF False] show ?thesis by (subst simple_exp_loop_at) auto
  next
    case True
    from r True obtain right s2 where f: "term_rule (parser_at ts (Suc i)) = Inr (right, s2)"
      and lp: "simple_exp_loop (SimpleExp l (ts ! i) right) s2 = Inr (a, parser_at ts j)"
      by (subst (asm) simple_exp_loop_at) (auto elim!: bind_result_InrE)
    from result_at [OF term_rule_advanced [OF f]] obtain j1 where s2: "s2 = parser_at ts j1"
      and j1: "Suc i \<le> j1" by blast
    from True have d: "length ts - Suc i < length ts - i" by auto
    from IH [OF d] f s2 have f': "term_rule (parser_at ?ts (Suc i)) = Inr (right, parser_at ?ts j1)"
      by blast
    from True j1 have "length ts - j1 < length ts - i" by auto
    from IH [OF this] lp s2
    have "simple_exp_loop (SimpleExp l (ts ! i) right) (parser_at ?ts j1) =
        Inr (a, parser_at ?ts j)" by blast
    with True f' show ?thesis by (subst simple_exp_loop_at) (auto simp: nth_append)
  qed
  have S: "simple_exp (parser_at ?ts i) = Inr (a, parser_at ?ts j)"
    if r: "simple_exp (parser_at ts i) = Inr (a, parser_at ts j)" for a j
  proof -
    from r obtain left s1 where f: "term_rule (parser_at ts i) = Inr (left, s1)"
      and lp: "simple_exp_loop left s1 = Inr (a, parser_at ts j)"
      by (subst (asm) simple_exp.simps) (auto elim!: bind_result_InrE)
    from result_at [OF term_rule_advanced [OF f]] obtain j1 where s1: "s1 = parser_at ts j1"
      and j1: "i \<le> j1" by blast
    from f have il: "i < length ts"
      by (subst (asm) term_rule.simps, subst (asm) factor_at) (auto split: if_splits)
    from T f s1 have f': "term_rule (parser_at ?ts i) = Inr (left, parser_at ?ts j1)" by blast
    have "simple_exp_loop left (parser_at ?ts j1) = Inr (a, parser_at ?ts j)"
    proof (cases "j1 = i")
      case True
      with SL lp s1 show ?thesis by blast
    next
      case False
      with j1 il have "length ts - j1 < length ts - i" by simp
      from IH [OF this] lp s1 show ?thesis by blast
    qed
    with f' show ?thesis by (subst simple_exp.simps) simp
  qed
  have E: "exp (parser_at ?ts i) = Inr (a, parser_at ?ts j)"
    if r: "exp (parser_at ts i) = Inr (a, parser_at ts j)" for a j
  proof -
    from r obtain left s1 where f: "simple_exp (parser_at ts i) = Inr (left, s1)"
      by (subst (asm) exp.simps) (auto elim!: bind_result_InrE)
    from result_at [OF simple_exp_advanced [OF f]] obtain j1 where s1: "s1 = parser_at ts j1"
      and j1: "i \<le> j1" by blast
    from f have il: "i < length ts"
      by (subst (asm) simple_exp.simps, subst (asm) term_rule.simps, subst (asm) factor_at)
        (auto split: if_splits)
    from S f s1 have f': "simple_exp (parser_at ?ts i) = Inr (left, parser_at ?ts j1)" by blast
    from r f s1 have tail: "(if j1 < length ts \<and> snd (ts ! j1) \<in> set [''LESSTHAN'', ''EQUAL''] then
        bind_result (simple_exp (parser_at ts (Suc j1))) (\<lambda>right self.
          Inr (Exp left (ts ! j1) right, self))
      else Inr (left, parser_at ts j1)) = Inr (a, parser_at ts j)"
      by (simp add: exp_at)
    show ?thesis
    proof (cases "j1 < length ts \<and> snd (ts ! j1) \<in> set [''LESSTHAN'', ''EQUAL'']")
      case False
      with tail have "a = left" "j = j1" by auto
      with stop [OF False] show ?thesis by (subst exp_at [OF f']) auto
    next
      case True
      with tail obtain right where se: "simple_exp (parser_at ts (Suc j1)) = Inr (right, parser_at ts j)"
        and a: "a = Exp left (ts ! j1) right"
        by (auto elim!: bind_result_InrE)
      from True j1 have "length ts - Suc j1 < length ts - i" by auto
      from IH [OF this] se
      have "simple_exp (parser_at ?ts (Suc j1)) = Inr (right, parser_at ?ts j)" by blast
      with True a show ?thesis by (subst exp_at [OF f']) (auto simp: nth_append)
    qed
  qed
  from F TL T SL S E show ?case by blast
qed

lemma exp_extended:
  "snd semi = ''SEMICOLON'' \<Longrightarrow> exp (parser_at ts i) = Inr (a, parser_at ts j) \<Longrightarrow>
     exp (parser_at (ts @ [semi]) i) = Inr (a, parser_at (ts @ [semi]) j)"
  using exp_extend [of semi ts i] by blast

lemma match_extended:
  "match k (parser_at ts i) = Inr (t, s') \<Longrightarrow>
     match k (parser_at (ts @ [semi]) i) = Inr (t, parser_at (ts @ [semi]) (Suc i))"
  by (auto simp: match_at_Inr nth_append)

lemma assign_stmt_extended:
  assumes semi: "snd semi = ''SEMICOLON''"
    and r: "assign_stmt (parser_at ts i) = Inr (a, parser_at ts j)"
  shows "assign_stmt (parser_at (ts @ [semi]) i) = Inr (a, parser_at (ts @ [semi]) j)"
proof -
  from r obtain t1 s1 t2 s2 val where m1: "match ''IDENTIFIER'' (parser_at ts i) = Inr (t1, s1)"
    and m2: "match ''ASSIGN'' s1 = Inr (t2, s2)" and e: "exp s2 = Inr (val, parser_at ts j)"
    and a: "a = AssignStmt t1 val"
    unfolding assign_stmt_def by (auto elim!: bind_result_InrE)
  from m1 have s1: "s1 = parser_at ts (Suc i)" by (simp add: match_at_Inr)
  from m2 s1 have s2: "s2 = parser_at ts (Suc (Suc i))" by (simp add: match_at_Inr)
  from match_extended [OF m1] match_extended [OF m2 [unfolded s1]]
    exp_extended [OF semi e [unfolded s2]] a
  show ?thesis by (simp add: assign_stmt_def)
qed

lemma read_stmt_extended:
  assumes r: "read_stmt (parser_at ts i) = Inr (a, parser_at ts j)"
  shows "read_stmt (parser_at (ts @ [semi]) i) = Inr (a, parser_at (ts @ [semi]) j)"
proof -
  from r obtain t1 s1 t2 where m1: "match ''READ'' (parser_at ts i) = Inr (t1, s1)"
    and m2: "match ''IDENTIFIER'' s1 = Inr (t2, parser_at ts j)"
    and a: "a = ReadStmt t2"
    unfolding read_stmt_def by (auto elim!: bind_result_InrE)
  from m1 have s1: "s1 = parser_at ts (Suc i)" by (simp add: match_at_Inr)
  from m2 s1 have j: "j = Suc (Suc i)" by (simp add: match_at_Inr)
  from match_extended [OF m1] match_extended [OF m2 [unfolded s1]] a j
  show ?thesis by (simp add: read_stmt_def)
qed

lemma write_stmt_extended:
  assumes semi: "snd semi = ''SEMICOLON''"
    and r: "write_stmt (parser_at ts i) = Inr (a, parser_at ts j)"
  shows "write_stmt (parser_at (ts @ [semi]) i) = Inr (a, parser_at (ts @ [semi]) j)"
proof -
  from r obtain t1 s1 val where m1: "match ''WRITE'' (parser_at ts i) = Inr (t1, s1)"
    and e: "exp s1 = Inr (val, parser_at ts j)" and a: "a = WriteStmt val"
    unfolding write_stmt_def by (auto elim!: bind_result_InrE)
  from m1 have s1: "s1 = parser_at ts (Suc i)" by (simp add: match_at_Inr)
  from match_extended [OF m1] exp_extended [OF semi e [unfolded s1]] a
  show ?thesis by (simp add: write_stmt_def)
qed

lemma result_at_le:
  "advanced (parser_at ts i) s' \<Longrightarrow> i \<le> length ts \<Longrightarrow>
     \<exists>j\<ge>i. j \<le> length ts \<and> s' = parser_at ts j"
  by (erule advanced_at) blast

lemma stmt_extend:
  assumes semi: "snd semi = ''SEMICOLON''" and nl: "snd (last ts) \<noteq> ''SEMICOLON''"
  shows "(\<forall>a j. if_stmt (parser_at ts i) = Inr (a, parser_at ts j) \<longrightarrow>
        if_stmt (parser_at (ts @ [semi]) i) = Inr (a, parser_at (ts @ [semi]) j)) \<and>
    (\<forall>a j. repeat_stmt (parser_at ts i) = Inr (a, parser_at ts j) \<longrightarrow>
        repeat_stmt (parser_at (ts @ [semi]) i) = Inr (a, parser_at (ts @ [semi]) j)) \<and>
    (\<forall>a j. statement (parser_at ts i) = Inr (a, parser_at ts j) \<longrightarrow>
        statement (parser_at (ts @ [semi]) i) = Inr (a, parser_at (ts @ [semi]) j)) \<and>
    (\<forall>l a j. stmt_sequence_loop l (parser_at ts i) = Inr (a, parser_at ts j) \<longrightarrow>
        i \<le> length ts \<longrightarrow>
        stmt_sequence_loop l (parser_at (ts @ [semi]) i) =
          Inr (a, parser_at (ts @ [semi]) (if j < length ts then j else Suc (length ts)))) \<and>
    (\<forall>a j. stmt_sequence (parser_at ts i) = Inr (a, parser_at ts j) \<longrightarrow>
        stmt_sequence (parser_at (ts @ [semi]) i) =
          Inr (a, parser_at (ts @ [semi]) (if j < length ts then j else Suc (length ts))))"
proof (induction "length ts - i" arbitrary: i rule: less_induct)
  case less
  let ?ts = "ts @ [semi]"
  note IH = less [rule_format]
  have I: "if_stmt (parser_at ?ts i) = Inr (a, parser_at ?ts j)"
    if r: "if_stmt (parser_at ts i) = Inr (a, parser_at ts j)" for a j
  proof -
    from r obtain t1 c s2 t2 s3 b s4 t3 where m1: "match ''IF'' (parser_at ts i) = Inr (t1, parser_at ts (Suc i))"
      and e: "exp (parser_at ts (Suc i)) = Inr (c, s2)"
      and m2: "match ''THEN'' s2 = Inr (t2, s3)"
      and b: "stmt_sequence s3 = Inr (b, s4)"
      and m3: "match ''END'' s4 = Inr (t3, parser_at ts j)"
      and a: "a = IfStmt c b"
      by (subst (asm) if_stmt.simps) (auto elim!: bind_result_InrE simp: match_at_Inr)
    from m1 have il: "i < length ts" by (simp add: match_at_Inr)
    from result_at [OF exp_advanced [OF e]] obtain j2 where s2: "s2 = parser_at ts j2"
      and j2: "Suc i \<le> j2" by blast
    from m2 s2 have s3: "s3 = parser_at ts (Suc j2)" by (simp add: match_at_Inr)
    from result_at [OF stmt_sequence_advanced [OF b [unfolded s3]]]
    obtain j4 where s4: "s4 = parser_at ts j4" by blast
    from m3 s4 have j4: "j4 < length ts" "j = Suc j4" by (simp_all add: match_at_Inr)
    from j2 il have "length ts - Suc j2 < length ts - i" by simp
    from IH [OF this] b s3 s4 j4(1)
    have b': "stmt_sequence (parser_at ?ts (Suc j2)) = Inr (b, parser_at ?ts j4)" by fastforce
    from match_extended [OF m1] exp_extended [OF semi e [unfolded s2]]
      match_extended [OF m2 [unfolded s2]] b' match_extended [OF m3 [unfolded s4]] a j4(2)
    show ?thesis by (subst if_stmt.simps) simp
  qed
  have R: "repeat_stmt (parser_at ?ts i) = Inr (a, parser_at ?ts j)"
    if r: "repeat_stmt (parser_at ts i) = Inr (a, parser_at ts j)" for a j
  proof -
    from r obtain t1 b s2 t2 s3 c where m1: "match ''REPEAT'' (parser_at ts i) = Inr (t1, parser_at ts (Suc i))"
      and b: "stmt_sequence (parser_at ts (Suc i)) = Inr (b, s2)"
      and m2: "match ''UNTIL'' s2 = Inr (t2, s3)"
      and e: "exp s3 = Inr (c, parser_at ts j)"
      and a: "a = RepeatStmt b c"
      by (subst (asm) repeat_stmt.simps) (auto elim!: bind_result_InrE simp: match_at_Inr)
    from m1 have il: "i < length ts" by (simp add: match_at_Inr)
    from result_at [OF stmt_sequence_advanced [OF b]] obtain j2 where s2: "s2 = parser_at ts j2"
      by blast
    from m2 s2 have j2: "j2 < length ts" and s3: "s3 = parser_at ts (Suc j2)"
      by (simp_all add: match_at_Inr)
    from il have "length ts - Suc i < length ts - i" by simp
    from IH [OF this] b s2 j2
    have b': "stmt_sequence (parser_at ?ts (Suc i)) = Inr (b, parser_at ?ts j2)" by fastforce
    from match_extended [OF m1] b' match_extended [OF m2 [unfolded s2]]
      exp_extended [OF semi e [unfolded s3]] a
    show ?thesis by (subst repeat_stmt.simps) simp
  qed
  have S: "statement (parser_at ?ts i) = Inr (a, parser_at ?ts j)"
    if r: "statement (parser_at ts i) = Inr (a, parser_at ts j)" for a j
  proof -
    from r have il: "i < length ts" by (subst (asm) statement_at) (auto split: if_splits)
    then have nth: "?ts ! i = ts ! i" by (simp add: nth_append)
    from r il show ?thesis
      using I R assign_stmt_extended [OF semi] read_stmt_extended write_stmt_extended [OF semi]
      by (subst statement_at, subst (asm) statement_at) (auto simp: nth split: if_splits)
  qed
  have L: "stmt_sequence_loop l (parser_at ?ts i) =
      Inr (a, parser_at ?ts (if j < length ts then j else Suc (length ts)))"
    if r: "stmt_sequence_loop l (parser_at ts i) = Inr (a, parser_at ts j)" and i: "i \<le> length ts"
    for l a j
  proof (cases "i < length ts \<and> snd (ts ! i) = ''SEMICOLON''")
    case False
    with r have aj: "a = StmtSequence l" "j = i" by (subst (asm) stmt_sequence_loop_at, auto)+
    show ?thesis
    proof (cases "i < length ts")
      case True
      with False aj show ?thesis by (subst stmt_sequence_loop_at) (auto simp: nth_append)
    next
      case False
      with i have "i = length ts" by simp
      with aj semi show ?thesis by (subst stmt_sequence_loop_at) auto
    qed
  next
    case sc: True
    then have nth: "?ts ! i = ts ! i" by (simp add: nth_append)
    have "Suc i \<noteq> length ts"
    proof
      assume e: "Suc i = length ts"
      then have "ts \<noteq> []" "length ts - 1 = i" by auto
      then have "last ts = ts ! i" by (simp add: last_conv_nth)
      with sc nl show False by simp
    qed
    with sc have ni: "Suc i < length ts" by auto
    then have nth1: "?ts ! Suc i = ts ! Suc i" by (simp add: nth_append)
    show ?thesis
    proof (cases "snd (ts ! Suc i) \<notin> set [''END'', ''UNTIL'']")
      case False
      with r sc ni have aj: "a = StmtSequence l" "j = Suc i"
        by (subst (asm) stmt_sequence_loop_at, auto)+
      with False sc ni nth nth1 show ?thesis by (subst stmt_sequence_loop_at) auto
    next
      case True
      with r sc ni obtain st s2 where st: "statement (parser_at ts (Suc i)) = Inr (st, s2)"
        and lp: "stmt_sequence_loop (l @ [st]) s2 = Inr (a, parser_at ts j)"
        by (subst (asm) stmt_sequence_loop_at) (auto elim!: bind_result_InrE)
      from ni have "Suc i \<le> length ts" by simp
      from result_at_le [OF statement_advanced [OF st] this]
      obtain j2 where s2: "s2 = parser_at ts j2" and j2: "Suc i \<le> j2" "j2 \<le> length ts" by blast
      from sc have d: "length ts - Suc i < length ts - i" by auto
      from IH [OF d] st s2
      have st': "statement (parser_at ?ts (Suc i)) = Inr (st, parser_at ?ts j2)" by blast
      from sc j2 have "length ts - j2 < length ts - i" by auto
      from IH [OF this] lp s2 j2(2)
      have "stmt_sequence_loop (l @ [st]) (parser_at ?ts j2) =
          Inr (a, parser_at ?ts (if j < length ts then j else Suc (length ts)))" by blast
      with True sc ni nth nth1 st' show ?thesis by (subst stmt_sequence_loop_at) auto
    qed
  qed
  have Q: "stmt_sequence (parser_at ?ts i) =
      Inr (a, parser_at ?ts (if j < length ts then j else Suc (length ts)))"
    if r: "stmt_sequence (parser_at ts i) = Inr (a, parser_at ts j)" for a j
  proof -
    from r obtain st s1 where f: "statement (parser_at ts i) = Inr (st, s1)"
      and lp: "stmt_sequence_loop [st] s1 = Inr (a, parser_at ts j)"
      by (subst (asm) stmt_sequence.simps) (auto elim!: bind_result_InrE)
    from f have il: "i < length ts" by (subst (asm) statement_at) (auto split: if_splits)
    then have "i \<le> length ts" by simp
    from result_at_le [OF statement_advanced [OF f] this]
    obtain j1 where s1: "s1 = parser_at ts j1" and j1: "i \<le> j1" "j1 \<le> length ts" by blast
    from S f s1 have f': "statement (parser_at ?ts i) = Inr (st, parser_at ?ts j1)" by blast
    have "stmt_sequence_loop [st] (parser_at ?ts j1) =
        Inr (a, parser_at ?ts (if j < length ts then j else Suc (length ts)))"
    proof (cases "j1 = i")
      case True
      with L lp s1 il show ?thesis by auto
    next
      case False
      with j1 il have "length ts - j1 < length ts - i" by simp
      from IH [OF this] lp s1 j1(2) show ?thesis by blast
    qed
    with f' show ?thesis by (subst stmt_sequence.simps) simp
  qed
  from I R S L Q show ?case by blast
qed

section \<open>Claims about the scanner\<close>

text \<open>
  C4: scanning the sample program \<open>read x; if x < 0 then x := 0 end; write x\<close> returns
  exactly the fifteen toks listed, in that order.
\<close>

theorem scan_sample_program:
  "scan ''read x; if x < 0 then x := 0 end; write x'' =
     Inr [(''read'', ''READ''), (''x'', ''IDENTIFIER''), ('';'', ''SEMICOLON''), (''if'', ''IF''),
          (''x'', ''IDENTIFIER''), (''<'', ''LESSTHAN''), (''0'', ''NUMBER''), (''then'', ''THEN''),
          (''x'', ''IDENTIFIER''), ('':='', ''ASSIGN''), (''0'', ''NUMBER''), (''end'', ''END''),
          ('';'', ''SEMICOLON''), (''write'', ''WRITE''), (''x'', ''IDENTIFIER'')]"
  by code_simp

text \<open>
  C7: keyword recognition is case-insensitive and the lexeme keeps its case. Let \<open>w\<close> be a
  letter-led alphanumeric run that the text after it does not continue, whose lower-cased
  form is one of the seven reserved words, of kind \<open>k\<close>. Whatever text comes before it, the
  loop iteration at the start of the run appends the token \<open>(w, k)\<close> and moves to the end of
  the run. When moreover the text before the run scans to \<open>toks\<close> and its alphanumeric
  characters directly before the run, if any, are digits only (the run is not the
  continuation of an identifier; it may directly follow a number), the scan goes on after
  the run with \<open>(w, k)\<close> appended, so that every token sequence \<open>scan\<close> returns holds
  \<open>(w, k)\<close> right after \<open>toks\<close>, and a text ending with the run scans to \<open>toks\<close> and
  \<open>(w, k)\<close>. Scanning \<open>IF\<close> gives \<open>(IF, IF)\<close>, scanning \<open>If\<close> gives \<open>(If, IF)\<close> and
  scanning \<open>12then\<close> gives \<open>(12, NUMBER)\<close> and \<open>(then, THEN)\<close>.
\<close>

theorem scan_keyword_case_insensitive:
  assumes "w \<noteq> []" and "is_letter (hd w)" and "\<forall>c\<in>set w. is_alnum c"
    and "post = [] \<or> \<not> is_alnum (hd post)"
    and "(lower w, k) \<in> set (take 7 TOKEN_TYPES)"
  shows "scan_step (front @ w @ post) (length front) acc =
           Inr (length front + length w, acc @ [(w, k)]) \<and>
         scan_loop (front @ w @ post) (length front) acc =
           scan_loop (front @ w @ post) (length front + length w) (acc @ [(w, k)]) \<and>
         (scan before = Inr toks \<and>
          (\<forall>c\<in>set (takeWhile is_alnum (rev before)). \<not> is_letter c) \<longrightarrow>
            scan (before @ w @ post) =
              scan_loop (before @ w @ post) (length before + length w) (toks @ [(w, k)]) \<and>
            (\<forall>all. scan (before @ w @ post) = Inr all \<longrightarrow>
               (\<exists>more. all = toks @ (w, k) # more)) \<and>
            scan (before @ w) = Inr (toks @ [(w, k)])) \<and>
         scan ''IF'' = Inr [(''IF'', ''IF'')] \<and> scan ''If'' = Inr [(''If'', ''IF'')] \<and>
         scan ''12then'' = Inr [(''12'', ''NUMBER''), (''then'', ''THEN'')]"
proof -
  have kw: "map_of TOKEN_TYPES (lower w) = Some k"
    using assms(5) by (rule reserved_word_lookup)
  from assms(1) obtain c cs where w: "w = c # cs" by (cases w) auto
  have step: "scan_step (xs @ w @ rest) (length xs) ts =
      Inr (length xs + length w, ts @ [(w, k)])"
    if r: "rest = [] \<or> \<not> is_alnum (hd rest)" for xs rest ts
  proof -
    have "takeWhile is_alnum (cs @ rest) = cs"
      using assms(3) r w by (cases rest) (auto simp: takeWhile_append2 takeWhile_eq_all_conv)
    with assms(2) w have im: "identifier_match (w @ rest) = Some w"
      by (simp add: identifier_match_def)
    from assms(2) w have "\<not> isspace ((w @ rest) ! 0)" by (simp add: is_letter_not_space)
    with im kw show ?thesis by (simp add: scan_step_def nth_append)
  qed
  have loop: "scan_loop (xs @ w @ rest) (length xs) ts =
      scan_loop (xs @ w @ rest) (length xs + length w) (ts @ [(w, k)])"
    if r: "rest = [] \<or> \<not> is_alnum (hd rest)" for xs rest ts
  proof -
    from assms(1) have "length xs < length (xs @ w @ rest)" by simp
    with step [OF r, of xs ts] show ?thesis
      by (simp add: scan_loop.simps [of "xs @ w @ rest" "length xs"])
  qed
  have whole: "scan (before @ w @ post) =
        scan_loop (before @ w @ post) (length before + length w) (toks @ [(w, k)]) \<and>
      (\<forall>all. scan (before @ w @ post) = Inr all \<longrightarrow> (\<exists>more. all = toks @ (w, k) # more)) \<and>
      scan (before @ w) = Inr (toks @ [(w, k)])"
    if s: "scan before = Inr toks"
      and n: "\<forall>c\<in>set (takeWhile is_alnum (rev before)). \<not> is_letter c"
  proof -
    from n obtain pre ds where b: "before = pre @ ds"
      and pre: "pre = [] \<or> \<not> is_alnum (last pre)" and ds: "\<forall>c\<in>set ds. is_digit c"
      by (rule alnum_block_split)
    from s b have sl: "scan_loop (pre @ ds) 0 [] = Inr toks" by (simp add: scan_def)
    have reach: "scan_loop (before @ w @ rest) 0 [] =
        scan_loop (before @ w @ rest) (length before) toks" for rest
    proof -
      from assms(1,2) have "w @ rest \<noteq> []" "is_letter (hd (w @ rest))" by simp_all
      from scan_loop_before_letter [OF sl _ pre ds this] b show ?thesis by simp
    qed
    have gen: "scan_loop (before @ w @ rest) 0 [] =
        scan_loop (before @ w @ rest) (length before + length w) (toks @ [(w, k)])"
      if r: "rest = [] \<or> \<not> is_alnum (hd rest)" for rest
      using reach [of rest] loop [OF r, of before toks] by simp
    from gen [OF assms(4)] have a: "scan (before @ w @ post) =
        scan_loop (before @ w @ post) (length before + length w) (toks @ [(w, k)])"
      by (simp add: scan_def)
    from gen [of "[]"] have c: "scan (before @ w) = Inr (toks @ [(w, k)])"
      by (simp add: scan_def scan_loop.simps [of "before @ w" "length before + length w"])
    have e: "\<exists>more. all = toks @ (w, k) # more" if "scan (before @ w @ post) = Inr all" for all
    proof -
      from that a
      have "scan_loop (before @ w @ post) (length before + length w) (toks @ [(w, k)]) = Inr all"
        by simp
      from scan_loop_extends [OF this] show ?thesis by auto
    qed
    from a c e show ?thesis by blast
  qed
  have c: "scan ''IF'' = Inr [(''IF'', ''IF'')]" by code_simp
  have d: "scan ''If'' = Inr [(''If'', ''IF'')]" by code_simp
  have f: "scan ''12then'' = Inr [(''12'', ''NUMBER''), (''then'', ''THEN'')]" by code_simp
  from step [OF assms(4), of front acc] loop [OF assms(4), of front acc] whole c d f
  show ?thesis by blast
qed

theorem scan_keyword_case_insensitive_witness:
  "scan_step ''12RePeAt+ 1'' 2 [(''12'', ''NUMBER'')] =
     Inr (8, [(''12'', ''NUMBER''), (''RePeAt'', ''REPEAT'')]) \<and>
   scan ''x := 12'' = Inr [(''x'', ''IDENTIFIER''), ('':='', ''ASSIGN''), (''12'', ''NUMBER'')] \<and>
   scan ''x := 12RePeAt'' = Inr [(''x'', ''IDENTIFIER''), ('':='', ''ASSIGN''), (''12'', ''NUMBER''), (''RePeAt'', ''REPEAT'')]"
proof -
  have s: "scan ''x := 12'' = Inr [(''x'', ''IDENTIFIER''), ('':='', ''ASSIGN''), (''12'', ''NUMBER'')]"
    by code_simp
  have n: "\<forall>c\<in>set (takeWhile is_alnum (rev ''x := 12'')). \<not> is_letter c"
    by code_simp
  have h: "''RePeAt'' \<noteq> []"
    "is_letter (hd ''RePeAt'')" "\<forall>c\<in>set ''RePeAt''. is_alnum c"
    "''+ 1'' = [] \<or> \<not> is_alnum (hd ''+ 1'')"
    by (simp_all add: is_alnum_def is_letter_def is_digit_def)
  have l: "(lower ''RePeAt'', ''REPEAT'') \<in> set (take 7 TOKEN_TYPES)"
    by code_simp
  from scan_keyword_case_insensitive [OF h l, of "''12''" "[(''12'', ''NUMBER'')]"
      "''x := 12''" "[(''x'', ''IDENTIFIER''), ('':='', ''ASSIGN''), (''12'', ''NUMBER'')]"] s n
  show ?thesis by (simp add: eval_nat_numeral)
qed

text \<open>
  C8: a token sequence produced by \<open>scan\<close>, written by \<open>save_tokens_to_file\<close> and read back
  by the loader of \<open>parse_file\<close>, is the original sequence.
\<close>

theorem token_file_round_trip:
  assumes "scan code = Inr toks"
  shows "load_tokens (save_tokens_to_file toks) = Inr toks"
proof -
  from assms have pl: "\<forall>tok\<in>set toks. token_plain tok"
    by (auto simp: scan_def dest: scan_loop_plain)
  from pl have "CHR 0x0D \<notin> set (save_tokens_to_file toks)"
    by (rule save_no_carriage_return)
  then have "universal_newlines (save_tokens_to_file toks) = save_tokens_to_file toks"
    by (rule universal_newlines_id)
  with load_save [OF pl, of "[]"] show ?thesis by (simp add: load_tokens_def)
qed

theorem token_file_round_trip_witness:
  "scan ''x := 10'' = Inr [(''x'', ''IDENTIFIER''), ('':='', ''ASSIGN''), (''10'', ''NUMBER'')] \<and>
   save_tokens_to_file [(''x'', ''IDENTIFIER''), ('':='', ''ASSIGN''), (''10'', ''NUMBER'')] =
     ''x,IDENTIFIER'' @ [CHR 0x0A] @ '':=,ASSIGN'' @ [CHR 0x0A] @ ''10,NUMBER'' @ [CHR 0x0A] \<and>
   load_tokens (save_tokens_to_file [(''x'', ''IDENTIFIER''), ('':='', ''ASSIGN''), (''10'', ''NUMBER'')]) =
     Inr [(''x'', ''IDENTIFIER''), ('':='', ''ASSIGN''), (''10'', ''NUMBER'')]"
proof -
  have s: "scan ''x := 10'' = Inr [(''x'', ''IDENTIFIER''), ('':='', ''ASSIGN''), (''10'', ''NUMBER'')]"
    by code_simp
  from token_file_round_trip [OF s] s show ?thesis by (simp add: save_tokens_to_file_def)
qed

text \<open>
  C9: when the text before a character scans without error and the character is none the
  scanner recognises (no whitespace, letter or digit, no single symbol, and no colon
  followed by an equals sign), \<open>scan\<close> fails with that character and its index, and the
  result holds no token; scanning \<open>x @ y\<close> fails at position 2.
\<close>

theorem scan_unrecognized:
  assumes "scan pre = Inr toks"
    and "\<not> isspace c" and "\<not> is_alnum c" and "map_of TOKEN_TYPES [c] = None"
    and "\<not> (c = CHR '':'' \<and> take 1 post = ''='')"
  shows "scan (pre @ c # post) = Inl (Unrecognized (length pre) c) \<and>
         scan ''x @ y'' = Inl (Unrecognized 2 (CHR ''@''))"
proof
  let ?code = "pre @ c # post"
  from assms(1) have "scan_loop pre 0 [] = Inr toks" by (simp add: scan_def)
  from scan_loop_append [OF this, of "c # post"] assms(3)
  have reach: "scan_loop ?code 0 [] = scan_loop ?code (length pre) toks" by simp
  have im: "identifier_match (c # post) = None"
    using assms(3) by (simp add: identifier_match_def is_alnum_def)
  have nm: "number_match (c # post) = None"
    using assms(3) by (simp add: number_match_def is_alnum_def)
  have "take 2 (c # post) \<noteq> '':=''"
    using assms(5) by (cases post) auto
  with im nm assms(2,4)
  have "scan_step ?code (length pre) toks = Inl (Unrecognized (length pre) c)"
    by (simp add: scan_step_def)
  then have "scan_loop ?code (length pre) toks = Inl (Unrecognized (length pre) c)"
    by (simp add: scan_loop.simps [of ?code "length pre"])
  with reach show "scan ?code = Inl (Unrecognized (length pre) c)" by (simp add: scan_def)
next
  show "scan ''x @ y'' = Inl (Unrecognized 2 (CHR ''@''))" by code_simp
qed

theorem scan_unrecognized_witness:
  "scan ''a:= 1 '' = Inr [(''a'', ''IDENTIFIER''), ('':='', ''ASSIGN''), (''1'', ''NUMBER'')] \<and>
   scan ''a:= 1 :b'' = Inl (Unrecognized 6 (CHR '':''))"
proof -
  have s: "scan ''a:= 1 '' = Inr [(''a'', ''IDENTIFIER''), ('':='', ''ASSIGN''), (''1'', ''NUMBER'')]"
    by code_simp
  have "\<not> isspace (CHR '':'')" "\<not> is_alnum (CHR '':'')" "map_of TOKEN_TYPES [CHR '':''] = None"
    "\<not> (CHR '':'' = CHR '':'' \<and> take 1 ''b'' = ''='')"
    by (simp_all add: isspace_def is_alnum_def is_letter_def is_digit_def TOKEN_TYPES_def)
  from scan_unrecognized [OF s this] s show ?thesis by simp
qed

text \<open>
  C10: \<open>scan\<close> terminates. Each iteration of the main loop that does not raise moves the
  position forward by at least one character and not beyond the end of the text, and
  running the loop for at most as many iterations as the text has characters gives the
  result of \<open>scan\<close>.
\<close>

theorem scan_terminates:
  "(position < length code \<longrightarrow>
      (case scan_step code position toks of
         Inl e \<Rightarrow> True
       | Inr (position', toks') \<Rightarrow> position < position' \<and> position' \<le> length code)) \<and>
   scan_iter (length code) code 0 [] = Some (scan code)"
  by (auto simp: scan_def scan_iter_enough split: sum.splits dest: scan_step_advances)

theorem scan_terminates_witness:
  "(2::nat) < length ''x := 1'' \<and>
   scan_step ''x := 1'' 2 [(''x'', ''IDENTIFIER'')] =
     Inr (4, [(''x'', ''IDENTIFIER''), ('':='', ''ASSIGN'')]) \<and>
   (2::nat) < 4 \<and> (4::nat) \<le> length ''x := 1'' \<and>
   scan_iter (length ''x := 1'') ''x := 1'' 0 [] =
     Some (Inr [(''x'', ''IDENTIFIER''), ('':='', ''ASSIGN''), (''1'', ''NUMBER'')])"
proof -
  have st: "scan_step ''x := 1'' 2 [(''x'', ''IDENTIFIER'')] =
      Inr (4, [(''x'', ''IDENTIFIER''), ('':='', ''ASSIGN'')])"
    by code_simp
  have sc: "scan ''x := 1'' =
      Inr [(''x'', ''IDENTIFIER''), ('':='', ''ASSIGN''), (''1'', ''NUMBER'')]"
    by code_simp
  from scan_terminates [of 2 "''x := 1''" "[(''x'', ''IDENTIFIER'')]"] st sc
  show ?thesis by simp
qed

section \<open>Claims about the parser\<close>

text \<open>
  C1, as the code has it: a \<open>SEMICOLON\<close> at the end of the input is accepted. After
  consuming a semicolon the loop of \<open>stmt_sequence\<close> tests that a token follows before it
  looks at its kind, and leaves the loop when none does, as it does before \<open>END\<close> and
  \<open>UNTIL\<close>; no further statement is attempted. The tokens of \<open>read x;\<close> parse to a program
  of one read statement, not to the error "Unexpected end of input".
\<close>

theorem trailing_semicolon_counterexample:
  "parse [(''read'', ''READ''), (''x'', ''IDENTIFIER''), ('';'', ''SEMICOLON'')] =
     Inr (Program (StmtSequence [ReadStmt (''x'', ''IDENTIFIER'')])) \<and>
   parse [(''read'', ''READ''), (''x'', ''IDENTIFIER''), ('';'', ''SEMICOLON'')] \<noteq>
     Inl UnexpectedEndOfInput"
proof -
  have "parse [(''read'', ''READ''), (''x'', ''IDENTIFIER''), ('';'', ''SEMICOLON'')] =
     Inr (Program (StmtSequence [ReadStmt (''x'', ''IDENTIFIER'')]))"
    by code_simp
  then show ?thesis by simp
qed

text \<open>
  C1, amended: when the tokens before a final \<open>SEMICOLON\<close> parse to a syntax tree and do not
  themselves end in a semicolon, the whole sequence parses to the same tree; and in the
  loop of \<open>stmt_sequence\<close> a semicolon that is the last token is consumed and the loop
  returns the statements parsed so far.
\<close>

theorem trailing_semicolon_accepted:
  "(parse ts = Inr tree \<and> snd (last ts) \<noteq> ''SEMICOLON'' \<and> snd semi = ''SEMICOLON'' \<longrightarrow>
      parse (ts @ [semi]) = Inr tree) \<and>
   (i < length ts \<and> snd (ts ! i) = ''SEMICOLON'' \<and> Suc i = length ts \<longrightarrow>
      stmt_sequence_loop statements (parser_at ts i) =
        Inr (StmtSequence statements, parser_at ts (Suc i)))"
proof (intro conjI impI)
  assume a: "parse ts = Inr tree \<and> snd (last ts) \<noteq> ''SEMICOLON'' \<and> snd semi = ''SEMICOLON''"
  then obtain t self where pr: "program (parser_at ts 0) = Inr (t, self)"
    by (auto simp: parse_unfold split: sum.splits)
  then obtain body where b: "stmt_sequence (parser_at ts 0) = Inr (body, self)"
    and t: "t = Program body"
    by (auto simp: program_def elim!: bind_result_InrE)
  from result_at_le [OF stmt_sequence_advanced [OF b]]
  obtain j where s: "self = parser_at ts j" and j: "j \<le> length ts" by auto
  from a pr s have tr: "t = tree" and nj: "\<not> j < length ts"
    by (auto simp: parse_unfold split: if_splits)
  from a have "snd semi = ''SEMICOLON''" "snd (last ts) \<noteq> ''SEMICOLON''" by simp_all
  from stmt_extend [OF this, of 0] b s nj
  have "stmt_sequence (parser_at (ts @ [semi]) 0) =
      Inr (body, parser_at (ts @ [semi]) (Suc (length ts)))" by fastforce
  with t tr show "parse (ts @ [semi]) = Inr tree"
    by (simp add: parse_unfold program_def)
next
  assume "i < length ts \<and> snd (ts ! i) = ''SEMICOLON'' \<and> Suc i = length ts"
  then show "stmt_sequence_loop statements (parser_at ts i) =
      Inr (StmtSequence statements, parser_at ts (Suc i))"
    by (subst stmt_sequence_loop_at) auto
qed

theorem trailing_semicolon_accepted_witness:
  "parse [(''read'', ''READ''), (''x'', ''IDENTIFIER'')] =
     Inr (Program (StmtSequence [ReadStmt (''x'', ''IDENTIFIER'')])) \<and>
   parse ([(''read'', ''READ''), (''x'', ''IDENTIFIER'')] @ [('';'', ''SEMICOLON'')]) =
     Inr (Program (StmtSequence [ReadStmt (''x'', ''IDENTIFIER'')])) \<and>
   stmt_sequence_loop [ReadStmt (''x'', ''IDENTIFIER'')]
     (parser_at [(''read'', ''READ''), (''x'', ''IDENTIFIER''), ('';'', ''SEMICOLON'')] 2) =
     Inr (StmtSequence [ReadStmt (''x'', ''IDENTIFIER'')],
          parser_at [(''read'', ''READ''), (''x'', ''IDENTIFIER''), ('';'', ''SEMICOLON'')] (Suc 2))"
proof -
  have p: "parse [(''read'', ''READ''), (''x'', ''IDENTIFIER'')] =
      Inr (Program (StmtSequence [ReadStmt (''x'', ''IDENTIFIER'')]))"
    by code_simp
  from trailing_semicolon_accepted [where ts = "[(''read'', ''READ''), (''x'', ''IDENTIFIER'')]"
      and semi = "('';'', ''SEMICOLON'')"
      and tree = "Program (StmtSequence [ReadStmt (''x'', ''IDENTIFIER'')])"] p
  have 1: "parse ([(''read'', ''READ''), (''x'', ''IDENTIFIER'')] @ [('';'', ''SEMICOLON'')]) =
      Inr (Program (StmtSequence [ReadStmt (''x'', ''IDENTIFIER'')]))"
    by simp
  from trailing_semicolon_accepted
    [where ts = "[(''read'', ''READ''), (''x'', ''IDENTIFIER''), ('';'', ''SEMICOLON'')]"
      and i = 2 and statements = "[ReadStmt (''x'', ''IDENTIFIER'')]"]
  have 2: "stmt_sequence_loop [ReadStmt (''x'', ''IDENTIFIER'')]
     (parser_at [(''read'', ''READ''), (''x'', ''IDENTIFIER''), ('';'', ''SEMICOLON'')] 2) =
     Inr (StmtSequence [ReadStmt (''x'', ''IDENTIFIER'')],
          parser_at [(''read'', ''READ''), (''x'', ''IDENTIFIER''), ('';'', ''SEMICOLON'')] (Suc 2))"
    by simp
  from p 1 2 show ?thesis by blast
qed

text \<open>
  C2: whenever the \<open>program\<close> rule returns with the cursor before the end of the token
  sequence, \<open>parse\<close> fails with the error that names the token at the cursor, the first
  unconsumed one; when \<open>parse\<close> succeeds, \<open>program\<close> has returned with the cursor at the
  end, every token consumed. The tokens of \<open>read x end\<close> fail with the \<open>END\<close> token named
  as unexpected.
\<close>

theorem parse_consumes_all:
  "(\<forall>tree self. program (parser_at toks 0) = Inr (tree, self) \<and>
        current_token_index self < length toks \<longrightarrow>
        parse toks = Inl (UnexpectedTrailing (Some (toks ! current_token_index self)))) \<and>
   (\<forall>tree. parse toks = Inr tree \<longrightarrow>
        (\<exists>self. program (parser_at toks 0) = Inr (tree, self) \<and>
           current_token_index self = length toks)) \<and>
   parse [(''read'', ''READ''), (''x'', ''IDENTIFIER''), (''end'', ''END'')] =
     Inl (UnexpectedTrailing (Some (''end'', ''END'')))"
proof (intro conjI allI impI)
  fix tree self
  assume a: "program (parser_at toks 0) = Inr (tree, self) \<and> current_token_index self < length toks"
  then have "advanced (parser_at toks 0) self" by (blast dest: program_advanced)
  then obtain j where "self = parser_at toks j" by (rule advanced_at)
  with a show "parse toks = Inl (UnexpectedTrailing (Some (toks ! current_token_index self)))"
    by (simp add: parse_unfold)
next
  fix tree
  assume p: "parse toks = Inr tree"
  then obtain t self where pr: "program (parser_at toks 0) = Inr (t, self)"
    by (auto simp: parse_unfold split: sum.splits)
  from program_advanced [OF pr] obtain j where j: "self = parser_at toks j" "j \<le> length toks"
    by (rule advanced_at) simp
  from p pr j have "t = tree" "\<not> j < length toks"
    by (auto simp: parse_unfold split: if_splits)
  with j pr show "\<exists>self. program (parser_at toks 0) = Inr (tree, self) \<and>
      current_token_index self = length toks" by auto
next
  show "parse [(''read'', ''READ''), (''x'', ''IDENTIFIER''), (''end'', ''END'')] =
     Inl (UnexpectedTrailing (Some (''end'', ''END'')))" by code_simp
qed

theorem parse_consumes_all_witness:
  "program (parser_at [(''read'', ''READ''), (''x'', ''IDENTIFIER''), (''end'', ''END'')] 0) =
     Inr (Program (StmtSequence [ReadStmt (''x'', ''IDENTIFIER'')]),
          parser_at [(''read'', ''READ''), (''x'', ''IDENTIFIER''), (''end'', ''END'')] 2) \<and>
   parse [(''read'', ''READ''), (''x'', ''IDENTIFIER''), (''end'', ''END'')] =
     Inl (UnexpectedTrailing
       (Some ([(''read'', ''READ''), (''x'', ''IDENTIFIER''), (''end'', ''END'')] ! 2))) \<and>
   parse [(''read'', ''READ''), (''x'', ''IDENTIFIER'')] =
     Inr (Program (StmtSequence [ReadStmt (''x'', ''IDENTIFIER'')])) \<and>
   (\<exists>self. program (parser_at [(''read'', ''READ''), (''x'', ''IDENTIFIER'')] 0) =
      Inr (Program (StmtSequence [ReadStmt (''x'', ''IDENTIFIER'')]), self) \<and>
      current_token_index self = length [(''read'', ''READ''), (''x'', ''IDENTIFIER'')])"
proof -
  let ?ts = "[(''read'', ''READ''), (''x'', ''IDENTIFIER''), (''end'', ''END'')]"
  have pr: "program (parser_at ?ts 0) =
      Inr (Program (StmtSequence [ReadStmt (''x'', ''IDENTIFIER'')]), parser_at ?ts 2)"
    by code_simp
  have ok: "parse [(''read'', ''READ''), (''x'', ''IDENTIFIER'')] =
      Inr (Program (StmtSequence [ReadStmt (''x'', ''IDENTIFIER'')]))"
    by code_simp
  from parse_consumes_all [of ?ts] pr
  have "parse ?ts = Inl (UnexpectedTrailing (Some (?ts ! 2)))" by simp
  moreover from parse_consumes_all [of "[(''read'', ''READ''), (''x'', ''IDENTIFIER'')]"] ok
  have "\<exists>self. program (parser_at [(''read'', ''READ''), (''x'', ''IDENTIFIER'')] 0) =
      Inr (Program (StmtSequence [ReadStmt (''x'', ''IDENTIFIER'')]), self) \<and>
      current_token_index self = length [(''read'', ''READ''), (''x'', ''IDENTIFIER'')]"
    by blast
  ultimately show ?thesis using pr ok by blast
qed

text \<open>
  C3: in the loop of \<open>stmt_sequence\<close>, a \<open>SEMICOLON\<close> whose next token has kind \<open>END\<close> or
  \<open>UNTIL\<close> is consumed and the loop stops there with the statements parsed so far; a
  statement followed by such a semicolon is a sequence of that one statement. The tokens of
  \<open>repeat x := 1; until x = 1\<close> parse, and the body of the repeat statement holds exactly
  one statement.
\<close>

theorem stmt_sequence_trailing_semicolon:
  "(i < length ts \<and> snd (ts ! i) = ''SEMICOLON'' \<and> Suc i < length ts \<and>
      snd (ts ! Suc i) \<in> set [''END'', ''UNTIL''] \<longrightarrow>
      stmt_sequence_loop statements (parser_at ts i) =
        Inr (StmtSequence statements, parser_at ts (Suc i))) \<and>
   (statement (parser_at ts k) = Inr (st, parser_at ts i) \<and>
      i < length ts \<and> snd (ts ! i) = ''SEMICOLON'' \<and> Suc i < length ts \<and>
      snd (ts ! Suc i) \<in> set [''END'', ''UNTIL''] \<longrightarrow>
      stmt_sequence (parser_at ts k) = Inr (StmtSequence [st], parser_at ts (Suc i))) \<and>
   parse [(''repeat'', ''REPEAT''), (''x'', ''IDENTIFIER''), ('':='', ''ASSIGN''),
          (''1'', ''NUMBER''), ('';'', ''SEMICOLON''), (''until'', ''UNTIL''),
          (''x'', ''IDENTIFIER''), (''='', ''EQUAL''), (''1'', ''NUMBER'')] =
     Inr (Program (StmtSequence
       [RepeatStmt
          (StmtSequence [AssignStmt (''x'', ''IDENTIFIER'') (FactorToken (''1'', ''NUMBER''))])
          (Exp (FactorToken (''x'', ''IDENTIFIER'')) (''='', ''EQUAL'')
             (FactorToken (''1'', ''NUMBER'')))]))"
proof (intro conjI impI)
  assume "i < length ts \<and> snd (ts ! i) = ''SEMICOLON'' \<and> Suc i < length ts \<and>
      snd (ts ! Suc i) \<in> set [''END'', ''UNTIL'']"
  then show "stmt_sequence_loop statements (parser_at ts i) =
      Inr (StmtSequence statements, parser_at ts (Suc i))"
    by (subst stmt_sequence_loop_at) auto
next
  assume a: "statement (parser_at ts k) = Inr (st, parser_at ts i) \<and>
      i < length ts \<and> snd (ts ! i) = ''SEMICOLON'' \<and> Suc i < length ts \<and>
      snd (ts ! Suc i) \<in> set [''END'', ''UNTIL'']"
  then have "stmt_sequence_loop [st] (parser_at ts i) = Inr (StmtSequence [st], parser_at ts (Suc i))"
    by (subst stmt_sequence_loop_at) auto
  with a show "stmt_sequence (parser_at ts k) = Inr (StmtSequence [st], parser_at ts (Suc i))"
    by (subst stmt_sequence.simps) simp
next
  show "parse [(''repeat'', ''REPEAT''), (''x'', ''IDENTIFIER''), ('':='', ''ASSIGN''),
          (''1'', ''NUMBER''), ('';'', ''SEMICOLON''), (''until'', ''UNTIL''),
          (''x'', ''IDENTIFIER''), (''='', ''EQUAL''), (''1'', ''NUMBER'')] =
     Inr (Program (StmtSequence
       [RepeatStmt
          (StmtSequence [AssignStmt (''x'', ''IDENTIFIER'') (FactorToken (''1'', ''NUMBER''))])
          (Exp (FactorToken (''x'', ''IDENTIFIER'')) (''='', ''EQUAL'')
             (FactorToken (''1'', ''NUMBER'')))]))"
    by code_simp
qed

theorem stmt_sequence_trailing_semicolon_witness:
  "stmt_sequence_loop [AssignStmt (''x'', ''IDENTIFIER'') (FactorToken (''1'', ''NUMBER''))]
     (parser_at [(''repeat'', ''REPEAT''), (''x'', ''IDENTIFIER''), ('':='', ''ASSIGN''),
        (''1'', ''NUMBER''), ('';'', ''SEMICOLON''), (''until'', ''UNTIL''),
        (''x'', ''IDENTIFIER''), (''='', ''EQUAL''), (''1'', ''NUMBER'')] 4) =
     Inr (StmtSequence [AssignStmt (''x'', ''IDENTIFIER'') (FactorToken (''1'', ''NUMBER''))],
          parser_at [(''repeat'', ''REPEAT''), (''x'', ''IDENTIFIER''), ('':='', ''ASSIGN''),
            (''1'', ''NUMBER''), ('';'', ''SEMICOLON''), (''until'', ''UNTIL''),
            (''x'', ''IDENTIFIER''), (''='', ''EQUAL''), (''1'', ''NUMBER'')] 5) \<and>
   stmt_sequence
     (parser_at [(''repeat'', ''REPEAT''), (''x'', ''IDENTIFIER''), ('':='', ''ASSIGN''),
        (''1'', ''NUMBER''), ('';'', ''SEMICOLON''), (''until'', ''UNTIL''),
        (''x'', ''IDENTIFIER''), (''='', ''EQUAL''), (''1'', ''NUMBER'')] 1) =
     Inr (StmtSequence [AssignStmt (''x'', ''IDENTIFIER'') (FactorToken (''1'', ''NUMBER''))],
          parser_at [(''repeat'', ''REPEAT''), (''x'', ''IDENTIFIER''), ('':='', ''ASSIGN''),
            (''1'', ''NUMBER''), ('';'', ''SEMICOLON''), (''until'', ''UNTIL''),
            (''x'', ''IDENTIFIER''), (''='', ''EQUAL''), (''1'', ''NUMBER'')] 5)"
proof -
  let ?ts = "[(''repeat'', ''REPEAT''), (''x'', ''IDENTIFIER''), ('':='', ''ASSIGN''),
        (''1'', ''NUMBER''), ('';'', ''SEMICOLON''), (''until'', ''UNTIL''),
        (''x'', ''IDENTIFIER''), (''='', ''EQUAL''), (''1'', ''NUMBER'')]"
  have st: "statement (parser_at ?ts 1) =
      Inr (AssignStmt (''x'', ''IDENTIFIER'') (FactorToken (''1'', ''NUMBER'')), parser_at ?ts 4)"
    by code_simp
  from stmt_sequence_trailing_semicolon [where ts = ?ts and i = 4 and k = 1
      and st = "AssignStmt (''x'', ''IDENTIFIER'') (FactorToken (''1'', ''NUMBER''))"
      and statements = "[AssignStmt (''x'', ''IDENTIFIER'') (FactorToken (''1'', ''NUMBER''))]"] st
  show ?thesis by simp
qed

text \<open>
  C6: \<open>simple_exp\<close> and \<open>term\<close> build left-associative trees. Each iteration of their loops
  makes the node built so far the left child of a new node, and a chain \<open>a op1 b op2 c\<close> of
  three operands with two additive (or two multiplicative) operators, followed by no
  further operator of that level, parses to the node of \<open>(a op1 b) op2 c\<close>.
\<close>

theorem left_associative:
  "(j < length ts \<and> snd (ts ! j) \<in> set [''PLUS'', ''MINUS''] \<and>
      term_rule (parser_at ts (Suc j)) = Inr (right, self) \<longrightarrow>
      simple_exp_loop left (parser_at ts j) =
        simple_exp_loop (SimpleExp left (ts ! j) right) self) \<and>
   (j < length ts \<and> snd (ts ! j) \<in> set [''MULT'', ''DIV''] \<and>
      factor (parser_at ts (Suc j)) = Inr (right, self) \<longrightarrow>
      term_loop left (parser_at ts j) = term_loop (Term left (ts ! j) right) self) \<and>
   (term_rule (parser_at ts i) = Inr (a, parser_at ts j) \<and>
      j < length ts \<and> snd (ts ! j) \<in> set [''PLUS'', ''MINUS''] \<and>
      term_rule (parser_at ts (Suc j)) = Inr (b, parser_at ts k) \<and>
      k < length ts \<and> snd (ts ! k) \<in> set [''PLUS'', ''MINUS''] \<and>
      term_rule (parser_at ts (Suc k)) = Inr (c, parser_at ts l) \<and>
      \<not> (l < length ts \<and> snd (ts ! l) \<in> set [''PLUS'', ''MINUS'']) \<longrightarrow>
      simple_exp (parser_at ts i) =
        Inr (SimpleExp (SimpleExp a (ts ! j) b) (ts ! k) c, parser_at ts l)) \<and>
   (factor (parser_at ts i) = Inr (a, parser_at ts j) \<and>
      j < length ts \<and> snd (ts ! j) \<in> set [''MULT'', ''DIV''] \<and>
      factor (parser_at ts (Suc j)) = Inr (b, parser_at ts k) \<and>
      k < length ts \<and> snd (ts ! k) \<in> set [''MULT'', ''DIV''] \<and>
      factor (parser_at ts (Suc k)) = Inr (c, parser_at ts l) \<and>
      \<not> (l < length ts \<and> snd (ts ! l) \<in> set [''MULT'', ''DIV'']) \<longrightarrow>
      term_rule (parser_at ts i) =
        Inr (Term (Term a (ts ! j) b) (ts ! k) c, parser_at ts l))"
proof (intro conjI impI)
  assume "j < length ts \<and> snd (ts ! j) \<in> set [''PLUS'', ''MINUS''] \<and>
      term_rule (parser_at ts (Suc j)) = Inr (right, self)"
  then show "simple_exp_loop left (parser_at ts j) =
      simple_exp_loop (SimpleExp left (ts ! j) right) self"
    by (subst simple_exp_loop_at) auto
next
  assume "j < length ts \<and> snd (ts ! j) \<in> set [''MULT'', ''DIV''] \<and>
      factor (parser_at ts (Suc j)) = Inr (right, self)"
  then show "term_loop left (parser_at ts j) = term_loop (Term left (ts ! j) right) self"
    by (subst term_loop_at) auto
next
  assume h: "term_rule (parser_at ts i) = Inr (a, parser_at ts j) \<and>
      j < length ts \<and> snd (ts ! j) \<in> set [''PLUS'', ''MINUS''] \<and>
      term_rule (parser_at ts (Suc j)) = Inr (b, parser_at ts k) \<and>
      k < length ts \<and> snd (ts ! k) \<in> set [''PLUS'', ''MINUS''] \<and>
      term_rule (parser_at ts (Suc k)) = Inr (c, parser_at ts l) \<and>
      \<not> (l < length ts \<and> snd (ts ! l) \<in> set [''PLUS'', ''MINUS''])"
  then have "simple_exp_loop (SimpleExp (SimpleExp a (ts ! j) b) (ts ! k) c) (parser_at ts l) =
      Inr (SimpleExp (SimpleExp a (ts ! j) b) (ts ! k) c, parser_at ts l)"
    by (subst simple_exp_loop_at) auto
  with h have "simple_exp_loop (SimpleExp a (ts ! j) b) (parser_at ts k) =
      Inr (SimpleExp (SimpleExp a (ts ! j) b) (ts ! k) c, parser_at ts l)"
    by (subst simple_exp_loop_at) auto
  with h have "simple_exp_loop a (parser_at ts j) =
      Inr (SimpleExp (SimpleExp a (ts ! j) b) (ts ! k) c, parser_at ts l)"
    by (subst simple_exp_loop_at) auto
  with h show "simple_exp (parser_at ts i) =
      Inr (SimpleExp (SimpleExp a (ts ! j) b) (ts ! k) c, parser_at ts l)"
    by (subst simple_exp.simps) simp
next
  assume h: "factor (parser_at ts i) = Inr (a, parser_at ts j) \<and>
      j < length ts \<and> snd (ts ! j) \<in> set [''MULT'', ''DIV''] \<and>
      factor (parser_at ts (Suc j)) = Inr (b, parser_at ts k) \<and>
      k < length ts \<and> snd (ts ! k) \<in> set [''MULT'', ''DIV''] \<and>
      factor (parser_at ts (Suc k)) = Inr (c, parser_at ts l) \<and>
      \<not> (l < length ts \<and> snd (ts ! l) \<in> set [''MULT'', ''DIV''])"
  then have "term_loop (Term (Term a (ts ! j) b) (ts ! k) c) (parser_at ts l) =
      Inr (Term (Term a (ts ! j) b) (ts ! k) c, parser_at ts l)"
    by (subst term_loop_at) auto
  with h have "term_loop (Term a (ts ! j) b) (parser_at ts k) =
      Inr (Term (Term a (ts ! j) b) (ts ! k) c, parser_at ts l)"
    by (subst term_loop_at) auto
  with h have "term_loop a (parser_at ts j) =
      Inr (Term (Term a (ts ! j) b) (ts ! k) c, parser_at ts l)"
    by (subst term_loop_at) auto
  with h show "term_rule (parser_at ts i) =
      Inr (Term (Term a (ts ! j) b) (ts ! k) c, parser_at ts l)"
    by (subst term_rule.simps) simp
qed

theorem left_associative_witness:
  "simple_exp (parser_at [(''a'', ''IDENTIFIER''), (''-'', ''MINUS''), (''b'', ''IDENTIFIER''),
       (''+'', ''PLUS''), (''c'', ''IDENTIFIER'')] 0) =
     Inr (SimpleExp (SimpleExp (FactorToken (''a'', ''IDENTIFIER'')) (''-'', ''MINUS'')
                       (FactorToken (''b'', ''IDENTIFIER'')))
            (''+'', ''PLUS'') (FactorToken (''c'', ''IDENTIFIER'')),
          parser_at [(''a'', ''IDENTIFIER''), (''-'', ''MINUS''), (''b'', ''IDENTIFIER''),
            (''+'', ''PLUS''), (''c'', ''IDENTIFIER'')] 5) \<and>
   term_rule (parser_at [(''a'', ''IDENTIFIER''), (''/'', ''DIV''), (''2'', ''NUMBER''),
       (''*'', ''MULT''), (''c'', ''IDENTIFIER''), (''+'', ''PLUS'')] 0) =
     Inr (Term (Term (FactorToken (''a'', ''IDENTIFIER'')) (''/'', ''DIV'')
                  (FactorToken (''2'', ''NUMBER'')))
            (''*'', ''MULT'') (FactorToken (''c'', ''IDENTIFIER'')),
          parser_at [(''a'', ''IDENTIFIER''), (''/'', ''DIV''), (''2'', ''NUMBER''),
            (''*'', ''MULT''), (''c'', ''IDENTIFIER''), (''+'', ''PLUS'')] 5)"
proof -
  let ?ts = "[(''a'', ''IDENTIFIER''), (''-'', ''MINUS''), (''b'', ''IDENTIFIER''),
       (''+'', ''PLUS''), (''c'', ''IDENTIFIER'')]"
  let ?us = "[(''a'', ''IDENTIFIER''), (''/'', ''DIV''), (''2'', ''NUMBER''),
       (''*'', ''MULT''), (''c'', ''IDENTIFIER''), (''+'', ''PLUS'')]"
  have t: "term_rule (parser_at ?ts 0) = Inr (FactorToken (''a'', ''IDENTIFIER''), parser_at ?ts 1)"
    "term_rule (parser_at ?ts (Suc 1)) = Inr (FactorToken (''b'', ''IDENTIFIER''), parser_at ?ts 3)"
    "term_rule (parser_at ?ts (Suc 3)) = Inr (FactorToken (''c'', ''IDENTIFIER''), parser_at ?ts 5)"
    by code_simp+
  have f: "factor (parser_at ?us 0) = Inr (FactorToken (''a'', ''IDENTIFIER''), parser_at ?us 1)"
    "factor (parser_at ?us (Suc 1)) = Inr (FactorToken (''2'', ''NUMBER''), parser_at ?us 3)"
    "factor (parser_at ?us (Suc 3)) = Inr (FactorToken (''c'', ''IDENTIFIER''), parser_at ?us 5)"
    by code_simp+
  from left_associative [where ts = ?ts and i = 0 and j = 1 and k = 3 and l = 5
      and a = "FactorToken (''a'', ''IDENTIFIER'')" and b = "FactorToken (''b'', ''IDENTIFIER'')"
      and c = "FactorToken (''c'', ''IDENTIFIER'')"] t
  have 1: "simple_exp (parser_at ?ts 0) =
     Inr (SimpleExp (SimpleExp (FactorToken (''a'', ''IDENTIFIER'')) (''-'', ''MINUS'')
                       (FactorToken (''b'', ''IDENTIFIER'')))
            (''+'', ''PLUS'') (FactorToken (''c'', ''IDENTIFIER'')), parser_at ?ts 5)"
    by simp
  from left_associative [where ts = ?us and i = 0 and j = 1 and k = 3 and l = 5
      and a = "FactorToken (''a'', ''IDENTIFIER'')" and b = "FactorToken (''2'', ''NUMBER'')"
      and c = "FactorToken (''c'', ''IDENTIFIER'')"] f
  have 2: "term_rule (parser_at ?us 0) =
     Inr (Term (Term (FactorToken (''a'', ''IDENTIFIER'')) (''/'', ''DIV'')
                  (FactorToken (''2'', ''NUMBER'')))
            (''*'', ''MULT'') (FactorToken (''c'', ''IDENTIFIER'')), parser_at ?us 5)"
    by simp
  from 1 2 show ?thesis by blast
qed

text \<open>
  C5: \<open>exp\<close> parses at most one comparison. After a comparison operator and the second
  \<open>simple_exp\<close> it returns at once, with the cursor where that \<open>simple_exp\<close> stopped,
  whatever token is there. So a token sequence that holds a chained comparison fails to
  parse: one in which a comparison operator is followed by tokens that \<open>simple_exp\<close> parses
  and then by a second comparison operator, in particular one that holds, anywhere, a
  comparison operator, a number or an identifier and a second comparison operator in a
  row. The tokens of \<open>a < b < c\<close> as a whole program fail.
\<close>

theorem chained_comparison_rejected:
  "(simple_exp (parser_at ts i) = Inr (left, parser_at ts j) \<and> j < length ts \<and>
      snd (ts ! j) \<in> set [''LESSTHAN'', ''EQUAL''] \<and>
      simple_exp (parser_at ts (Suc j)) = Inr (right, parser_at ts k) \<longrightarrow>
      exp (parser_at ts i) = Inr (Exp left (ts ! j) right, parser_at ts k)) \<and>
   (snd (ts ! j) \<in> set [''LESSTHAN'', ''EQUAL''] \<and>
      simple_exp (parser_at ts (Suc j)) = Inr (right, parser_at ts k) \<and>
      k < length ts \<and> snd (ts ! k) \<in> set [''LESSTHAN'', ''EQUAL''] \<longrightarrow>
      (\<exists>e. parse ts = Inl e)) \<and>
   (snd op1 \<in> set [''LESSTHAN'', ''EQUAL''] \<and> snd b \<in> set [''NUMBER'', ''IDENTIFIER''] \<and>
      snd op2 \<in> set [''LESSTHAN'', ''EQUAL''] \<longrightarrow>
      (\<exists>e. parse (pre @ [op1, b, op2] @ post) = Inl e)) \<and>
   parse [(''a'', ''IDENTIFIER''), (''<'', ''LESSTHAN''), (''b'', ''IDENTIFIER''),
          (''<'', ''LESSTHAN''), (''c'', ''IDENTIFIER'')] = Inl (Expected ''ASSIGN'' ''LESSTHAN'')"
proof -
  have gen: "\<exists>e. parse us = Inl e"
    if cm: "snd (us ! m) \<in> set [''LESSTHAN'', ''EQUAL'']"
      and mid: "simple_exp (parser_at us (Suc m)) = Inr (r, parser_at us n)"
      and nl: "n < length us" and cn: "snd (us ! n) \<in> set [''LESSTHAN'', ''EQUAL'']"
    for us m n r
  proof (cases "program (parser_at us 0)")
    case (Inl e)
    then show ?thesis by (simp add: parse_unfold)
  next
    case (Inr p)
    obtain tree self where p: "p = (tree, self)" by (cases p)
    from Inr p obtain body where b: "stmt_sequence (parser_at us 0) = Inr (body, self)"
      by (auto simp: program_def elim!: bind_result_InrE)
    from result_at [OF stmt_sequence_advanced [OF b]] obtain j where s: "self = parser_at us j"
      by blast
    from result_at [OF simple_exp_advanced [OF mid]] have "Suc m \<le> n" by simp
    moreover from stmt_chain_bounds [OF cm cn nl mid, of 0] b s have "j \<le> m \<or> j = n" by blast
    ultimately have "j < length us" using nl by auto
    with Inr p s show ?thesis by (simp add: parse_unfold)
  qed
  have 1: "exp (parser_at ts i) = Inr (Exp left (ts ! j) right, parser_at ts k)"
    if "simple_exp (parser_at ts i) = Inr (left, parser_at ts j) \<and> j < length ts \<and>
      snd (ts ! j) \<in> set [''LESSTHAN'', ''EQUAL''] \<and>
      simple_exp (parser_at ts (Suc j)) = Inr (right, parser_at ts k)"
    using that by (simp add: exp_at)
  have 2: "\<exists>e. parse ts = Inl e"
    if "snd (ts ! j) \<in> set [''LESSTHAN'', ''EQUAL''] \<and>
      simple_exp (parser_at ts (Suc j)) = Inr (right, parser_at ts k) \<and>
      k < length ts \<and> snd (ts ! k) \<in> set [''LESSTHAN'', ''EQUAL'']"
    using that gen [of ts j right k] by blast
  have 3: "\<exists>e. parse (pre @ [op1, b, op2] @ post) = Inl e"
    if a: "snd op1 \<in> set [''LESSTHAN'', ''EQUAL''] \<and> snd b \<in> set [''NUMBER'', ''IDENTIFIER''] \<and>
      snd op2 \<in> set [''LESSTHAN'', ''EQUAL'']"
  proof -
    let ?us = "pre @ [op1, b, op2] @ post"
    let ?m = "length pre"
    from a have cm: "snd (?us ! ?m) \<in> set [''LESSTHAN'', ''EQUAL'']"
      and cb: "snd (?us ! Suc ?m) \<in> set [''NUMBER'', ''IDENTIFIER'']"
      and cn: "snd (?us ! Suc (Suc ?m)) \<in> set [''LESSTHAN'', ''EQUAL'']"
      by (simp_all add: nth_append)
    have l: "Suc (Suc ?m) < length ?us" by simp
    from simple_exp_single [OF l cb cn] gen [OF cm _ l cn] show ?thesis by blast
  qed
  have 4: "parse [(''a'', ''IDENTIFIER''), (''<'', ''LESSTHAN''), (''b'', ''IDENTIFIER''),
          (''<'', ''LESSTHAN''), (''c'', ''IDENTIFIER'')] = Inl (Expected ''ASSIGN'' ''LESSTHAN'')"
    by code_simp
  from 1 2 3 4 show ?thesis by blast
qed

theorem chained_comparison_rejected_witness:
  "exp (parser_at [(''x'', ''IDENTIFIER''), ('':='', ''ASSIGN''), (''a'', ''IDENTIFIER''),
         (''<'', ''LESSTHAN''), (''b'', ''IDENTIFIER''), (''+'', ''PLUS''), (''1'', ''NUMBER''),
         (''='', ''EQUAL''), (''c'', ''IDENTIFIER'')] 2) =
     Inr (Exp (FactorToken (''a'', ''IDENTIFIER'')) (''<'', ''LESSTHAN'')
            (SimpleExp (FactorToken (''b'', ''IDENTIFIER'')) (''+'', ''PLUS'')
               (FactorToken (''1'', ''NUMBER''))),
          parser_at [(''x'', ''IDENTIFIER''), ('':='', ''ASSIGN''), (''a'', ''IDENTIFIER''),
            (''<'', ''LESSTHAN''), (''b'', ''IDENTIFIER''), (''+'', ''PLUS''), (''1'', ''NUMBER''),
            (''='', ''EQUAL''), (''c'', ''IDENTIFIER'')] 7) \<and>
   (\<exists>e. parse [(''x'', ''IDENTIFIER''), ('':='', ''ASSIGN''), (''a'', ''IDENTIFIER''),
         (''<'', ''LESSTHAN''), (''b'', ''IDENTIFIER''), (''+'', ''PLUS''), (''1'', ''NUMBER''),
         (''='', ''EQUAL''), (''c'', ''IDENTIFIER'')] = Inl e) \<and>
   (\<exists>e. parse ([(''write'', ''WRITE''), (''a'', ''IDENTIFIER'')] @
         [(''<'', ''LESSTHAN''), (''b'', ''IDENTIFIER''), (''='', ''EQUAL'')] @
         [(''c'', ''IDENTIFIER'')]) = Inl e)"
proof -
  let ?ts = "[(''x'', ''IDENTIFIER''), ('':='', ''ASSIGN''), (''a'', ''IDENTIFIER''),
         (''<'', ''LESSTHAN''), (''b'', ''IDENTIFIER''), (''+'', ''PLUS''), (''1'', ''NUMBER''),
         (''='', ''EQUAL''), (''c'', ''IDENTIFIER'')]"
  have s: "simple_exp (parser_at ?ts 2) = Inr (FactorToken (''a'', ''IDENTIFIER''), parser_at ?ts 3)"
    "simple_exp (parser_at ?ts (Suc 3)) =
       Inr (SimpleExp (FactorToken (''b'', ''IDENTIFIER'')) (''+'', ''PLUS'')
              (FactorToken (''1'', ''NUMBER'')), parser_at ?ts 7)"
    by code_simp+
  note th = chained_comparison_rejected [where ts = ?ts and i = 2 and j = 3 and k = 7
      and left = "FactorToken (''a'', ''IDENTIFIER'')"
      and right = "SimpleExp (FactorToken (''b'', ''IDENTIFIER'')) (''+'', ''PLUS'')
              (FactorToken (''1'', ''NUMBER''))"
      and ?op1.0 = "(''<'', ''LESSTHAN'')" and b = "(''b'', ''IDENTIFIER'')"
      and ?op2.0 = "(''='', ''EQUAL'')"
      and pre = "[(''write'', ''WRITE''), (''a'', ''IDENTIFIER'')]"
      and post = "[(''c'', ''IDENTIFIER'')]"]
  from th s show ?thesis by simp
qed

end
